theory Spec2Isabelle
  imports Main "HOL-Library.Monad_Syntax"
begin

section \<open>The C integer types of \<open>solver.c\<close>\<close>

text \<open>
  The solver computes with two C types: \<open>int\<close> (32 bits, two's complement) for counts,
  capacities, values, weights and table cells, and \<open>size_t\<close> (64 bits, unsigned) for
  the loop counters and every subscript computed from them. An \<open>int\<close> is modelled as a
  HOL \<open>int\<close> between \<open>INT_MIN\<close> and \<open>INT_MAX\<close>, with the result of every \<open>int\<close>
  operation reduced by \<open>int_wrap\<close>; a \<open>size_t\<close> is a \<open>nat\<close> below \<open>2 ^ 64\<close>, with
  the result of every operation reduced modulo \<open>2 ^ 64\<close>. Signed overflow, which ISO C
  leaves undefined, has the two's complement result that the compiled program computes.
\<close>

definition INT_MAX :: int where
  "INT_MAX = 2147483647"

definition INT_MIN :: int where
  "INT_MIN = - 2147483648"

definition int_wrap :: "int \<Rightarrow> int" where
  \<comment> \<open>the 32-bit two's complement value of the exact result of an \<open>int\<close> operation\<close>
  "int_wrap x = (x + 2147483648) mod 4294967296 - 2147483648"

definition size_wrap :: "nat \<Rightarrow> nat" where
  "size_wrap x = x mod 18446744073709551616"

definition size_of_int :: "int \<Rightarrow> nat" where
  \<comment> \<open>the conversion of an \<open>int\<close> operand to \<open>size_t\<close>: a negative value becomes huge\<close>
  "size_of_int x = nat (x mod 18446744073709551616)"

definition size_add :: "nat \<Rightarrow> nat \<Rightarrow> nat" where
  "size_add a b = size_wrap (a + b)"

definition size_mul :: "nat \<Rightarrow> nat \<Rightarrow> nat" where
  "size_mul a b = size_wrap (a * b)"

definition size_sub :: "nat \<Rightarrow> nat \<Rightarrow> nat" where
  "size_sub a b = size_wrap (a + 18446744073709551616 - size_wrap b)"

section \<open>Arrays\<close>

text \<open>
  Both arrays of the program are flat \<open>int\<close> arrays: \<open>objs\<close> holds three cells per
  item (value, weight, selection flag) and \<open>vals\<close> holds the \<open>(n+1) \<times> (c+1)\<close> table in
  row-major order. A subscript outside the array is undefined behaviour in C; here it is
  the result \<open>None\<close>, which every caller propagates. \<open>None\<close> is also the result of a
  loop that does not return, so \<open>Some\<close> is a run that returns without such an access.
\<close>

definition load :: "int list \<Rightarrow> nat \<Rightarrow> int option" where
  "load a j = (if j < length a then Some (a ! j) else None)"

definition store :: "int list \<Rightarrow> nat \<Rightarrow> int \<Rightarrow> int list option" where
  "store a j x = (if j < length a then Some (a[j := x]) else None)"

definition calloc :: "nat \<Rightarrow> int list" where
  \<comment> \<open>\<open>calloc(nmemb, sizeof(int))\<close>: zeroed cells; a request whose byte count does not fit
      \<open>size_t\<close> fails, and the null pointer it returns has no cell that can be accessed
      (the program does not test the pointer); any other request is taken to succeed\<close>
  "calloc nmemb = (if nmemb * 4 < 18446744073709551616 then replicate nmemb 0 else [])"

section \<open>The table builder (the loops of \<open>dp_knapsack\<close>)\<close>

definition row_width :: "int \<Rightarrow> nat" where
  \<comment> \<open>the factor \<open>(c+1)\<close> of a table subscript, an \<open>int\<close> converted to \<open>size_t\<close>\<close>
  "row_width c = size_of_int (int_wrap (c + 1))"

definition cell_index :: "int \<Rightarrow> nat \<Rightarrow> nat \<Rightarrow> nat" where
  \<comment> \<open>the subscript \<open>i*(c+1) + k\<close>\<close>
  "cell_index c i k = size_add (size_mul i (row_width c)) k"

definition obj_index :: "nat \<Rightarrow> nat \<Rightarrow> nat" where
  \<comment> \<open>the subscript \<open>(i-1)*3 + f\<close> of field \<open>f\<close> of the \<open>i\<close>-th item\<close>
  "obj_index i f = size_add (size_mul (size_sub i 1) 3) f"

definition dp_cell :: "int \<Rightarrow> int list \<Rightarrow> nat \<Rightarrow> nat \<Rightarrow> int list \<Rightarrow> int list option" where
  \<comment> \<open>the body of the inner loop: the assignment to \<open>vals[i*(c+1) + k]\<close>; the conditional
      expression reads again the cell it selects, with nothing assigned in between\<close>
  "dp_cell c objs i k vals = do {
     v \<leftarrow> load objs (size_mul (size_sub i 1) 3);
     w \<leftarrow> load objs (obj_index i 1);
     if k < size_of_int w then do {
       excl \<leftarrow> load vals (cell_index c (size_sub i 1) k);
       store vals (cell_index c i k) excl
     } else do {
       excl \<leftarrow> load vals (cell_index c (size_sub i 1) k);
       prev \<leftarrow> load vals (cell_index c (size_sub i 1) (size_sub k (size_of_int w)));
       store vals (cell_index c i k)
         (if excl \<ge> int_wrap (prev + v) then excl else int_wrap (prev + v))
     }
   }"

text \<open>
  The two loops count with \<open>size_t\<close> up to a bound converted from \<open>int\<close>; for the bound
  \<open>-1\<close> the test \<open>k <= c\<close> never fails, so the loops are partial functions.
\<close>

partial_function (option) dp_cols ::
  "int \<Rightarrow> int list \<Rightarrow> nat \<Rightarrow> nat \<Rightarrow> int list \<Rightarrow> int list option" where
  "dp_cols c objs i k vals =
     (if k \<le> size_of_int c then do {
        vals' \<leftarrow> dp_cell c objs i k vals;
        dp_cols c objs i (size_add k 1) vals'
      } else Some vals)"

partial_function (option) dp_rows ::
  "int \<Rightarrow> int \<Rightarrow> int list \<Rightarrow> nat \<Rightarrow> int list \<Rightarrow> int list option" where
  "dp_rows n c objs i vals =
     (if i \<le> size_of_int n then do {
        vals' \<leftarrow> dp_cols c objs i 0 vals;
        dp_rows n c objs (size_add i 1) vals'
      } else Some vals)"

definition dp_table :: "int \<Rightarrow> int \<Rightarrow> int list \<Rightarrow> int list option" where
  \<comment> \<open>lines 66 to 80 of \<open>dp_knapsack\<close>: the allocation and the two loops\<close>
  "dp_table n c objs =
     dp_rows n c objs 1
       (calloc (size_of_int (int_wrap (int_wrap (n + 1) * int_wrap (c + 1)))))"

section \<open>The backtrace (\<open>dp_backtrace\<close>)\<close>

text \<open>
  The state of the backtrace loop: the capacity cursor \<open>k\<close> (an \<open>int\<close>) and the two
  arrays the function was given. The loop counter \<open>i\<close> is the argument of the recursion.
\<close>

record bt_state =
  bt_k :: int
  bt_objs :: "int list"
  bt_vals :: "int list"

definition bt_differs :: "int \<Rightarrow> nat \<Rightarrow> bt_state \<Rightarrow> bool option" where
  \<comment> \<open>the test \<open>vals[i*(c+1) + k] != vals[(i-1)*(c+1) + k]\<close>; the \<open>int\<close> cursor is
      converted to \<open>size_t\<close> for the addition\<close>
  "bt_differs c i s = do {
     x \<leftarrow> load (bt_vals s) (cell_index c i (size_of_int (bt_k s)));
     y \<leftarrow> load (bt_vals s) (cell_index c (size_sub i 1) (size_of_int (bt_k s)));
     Some (x \<noteq> y)
   }"

definition bt_body :: "int \<Rightarrow> nat \<Rightarrow> bt_state \<Rightarrow> bt_state option" where
  "bt_body c i s = do {
     d \<leftarrow> bt_differs c i s;
     if d then do {
       objs' \<leftarrow> store (bt_objs s) (obj_index i 2) 1;
       w \<leftarrow> load objs' (obj_index i 1);
       Some (s\<lparr>bt_k := int_wrap (bt_k s - w), bt_objs := objs'\<rparr>)
     } else Some s
   }"

fun bt_loop :: "int \<Rightarrow> nat \<Rightarrow> bt_state \<Rightarrow> bt_state option" where
  "bt_loop c i s =
     (if i > 0 then
        (case bt_body c i s of None \<Rightarrow> None | Some s' \<Rightarrow> bt_loop c (i - 1) s')
      else Some s)"

definition dp_backtrace :: "int \<Rightarrow> int \<Rightarrow> int list \<Rightarrow> int list \<Rightarrow> bt_state option" where
  "dp_backtrace n c objs vals =
     bt_loop c (size_of_int n) \<lparr>bt_k = c, bt_objs = objs, bt_vals = vals\<rparr>"

section \<open>The report (\<open>dp_print\<close>)\<close>

fun digits :: "nat \<Rightarrow> string" where
  "digits m =
     (if m < 10 then [''0123456789'' ! m]
      else digits (m div 10) @ [''0123456789'' ! (m mod 10)])"

definition show_int :: "int \<Rightarrow> string" where
  \<comment> \<open>the conversion \<open>%d\<close>\<close>
  "show_int x = (if x < 0 then CHR ''-'' # digits (nat (- x)) else digits (nat x))"

function print_flags :: "int \<Rightarrow> int list \<Rightarrow> nat \<Rightarrow> string option" where
  "print_flags n objs i =
     (if i < size_of_int n then do {
        x \<leftarrow> load objs (size_add (size_mul i 3) 2);
        rest \<leftarrow> print_flags n objs (size_add i 1);
        Some ((if x = 1 then ''1 '' else ''0 '') @ rest)
      } else Some [])"
  by pat_completeness auto

termination
proof (relation "measure (\<lambda>(n, objs, i). size_of_int n - i)")
  show "wf (measure (\<lambda>(n, objs, i). size_of_int n - i))"
    by simp
next
  fix n :: int and objs :: "int list" and i :: nat and x :: int
  assume "i < size_of_int n"
  moreover have "size_of_int n < 18446744073709551616"
    by (simp add: size_of_int_def nat_less_iff)
  ultimately show "((n, objs, size_add i 1), (n, objs, i))
      \<in> measure (\<lambda>(n, objs, i). size_of_int n - i)"
    by (simp add: size_add_def size_wrap_def)
qed

definition dp_print :: "int \<Rightarrow> int \<Rightarrow> int \<Rightarrow> int list \<Rightarrow> string option" where
  \<comment> \<open>the text written to the standard output\<close>
  "dp_print n mx optimal objs = do {
     flags \<leftarrow> print_flags n objs 0;
     Some (show_int mx @ '' '' @ show_int optimal @ [CHR 0x0A] @ flags @ [CHR 0x0A])
   }"

section \<open>The solver (\<open>dp_knapsack\<close>) and the program (\<open>main\<close>)\<close>

definition load_int :: "int list \<Rightarrow> int \<Rightarrow> int option" where
  \<comment> \<open>a subscript of type \<open>int\<close>\<close>
  "load_int a j = (if 0 \<le> j then load a (nat j) else None)"

definition dp_knapsack :: "int \<Rightarrow> int \<Rightarrow> int list \<Rightarrow> string option" where
  "dp_knapsack n c objs = do {
     vals \<leftarrow> dp_table n c objs;
     s \<leftarrow> dp_backtrace n c objs vals;
     mx \<leftarrow> load_int (bt_vals s) (int_wrap (int_wrap (n * int_wrap (c + 1)) + c));
     dp_print n mx 1 (bt_objs s)
   }"

text \<open>
  The environment of the program. \<open>fopen\<close> either fails, with the message that
  \<open>strerror\<close> gives for the reason, or yields the input, which is represented by the
  integers that the successive \<open>%d\<close> conversions of \<open>fscanf\<close> read from it (up to the
  end of the file or the first text that is not an integer). The outcome of a run is the
  value returned by \<open>main\<close> and the text written to the two output streams.
\<close>

record outcome =
  status :: int
  out :: string
  err :: string

function read_objs :: "int \<Rightarrow> nat \<Rightarrow> int list \<Rightarrow> int list \<Rightarrow> int list option" where
  \<comment> \<open>the loop of \<open>fscanf(fp, "%d %d\n", &objs[i*3], &objs[i*3 + 1])\<close>: a conversion that
      fails assigns nothing and ends the call\<close>
  "read_objs n i input objs =
     (if i < size_of_int n then
        (case input of
           [] \<Rightarrow> read_objs n (size_add i 1) [] objs
         | [v] \<Rightarrow> do {
             objs' \<leftarrow> store objs (size_mul i 3) v;
             read_objs n (size_add i 1) [] objs'
           }
         | v # w # rest \<Rightarrow> do {
             objs' \<leftarrow> store objs (size_mul i 3) v;
             objs'' \<leftarrow> store objs' (size_add (size_mul i 3) 1) w;
             read_objs n (size_add i 1) rest objs''
           })
      else Some objs)"
  by pat_completeness auto
termination
proof (relation "measure (\<lambda>(n, i, input, objs). size_of_int n - i)", goal_cases)
  case 1
  show ?case by simp
next
  case (2 n i input objs)
  moreover have "size_of_int n < 18446744073709551616"
    by (simp add: size_of_int_def nat_less_iff)
  ultimately show ?case
    by (simp add: size_add_def size_wrap_def)
next
  case (3 n i input objs v rest objs')
  moreover have "size_of_int n < 18446744073709551616"
    by (simp add: size_of_int_def nat_less_iff)
  ultimately show ?case
    by (simp add: size_add_def size_wrap_def)
next
  case (4 n i input objs v tl w rest objs' objs'')
  moreover have "size_of_int n < 18446744073709551616"
    by (simp add: size_of_int_def nat_less_iff)
  ultimately show ?case
    by (simp add: size_add_def size_wrap_def)
qed

definition perror :: "string \<Rightarrow> string \<Rightarrow> string" where
  \<comment> \<open>the line \<open>perror(s)\<close> writes to the standard error for the given \<open>strerror\<close> text\<close>
  "perror s reason = s @ '': '' @ reason @ [CHR 0x0A]"

definition main :: "string list \<Rightarrow> (string \<Rightarrow> string + int list) \<Rightarrow> outcome option" where
  \<comment> \<open>\<open>argv\<close> is the argument vector, so \<open>argc\<close> is its length\<close>
  "main argv fopen =
     (if int (length argv) = 2 then
        (case fopen (argv ! 1) of
           Inl reason \<Rightarrow>
             Some \<lparr>status = - 1, out = [], err = perror ''Could not open file.'' reason\<rparr>
         | Inr input \<Rightarrow>
             (case input of
                n # capacity # rest \<Rightarrow> do {
                  objs \<leftarrow> read_objs n 0 rest (calloc (size_of_int (int_wrap (n * 3))));
                  report \<leftarrow> dp_knapsack n capacity objs;
                  Some \<lparr>status = 0, out = report, err = []\<rparr>
                }
              | _ \<Rightarrow> None))
      else Some \<lparr>status = 0, out = [], err = []\<rparr>)"

section \<open>Items, tables and the quantities the properties speak about\<close>

text \<open>
  Item \<open>j\<close> (counted from 0) occupies the cells \<open>3j\<close>, \<open>3j+1\<close> and \<open>3j+2\<close> of
  \<open>objs\<close>; the \<open>p\<close>-th item of the recurrence is item \<open>p-1\<close>.
\<close>

definition item_value :: "int list \<Rightarrow> nat \<Rightarrow> int" where
  "item_value objs j = objs ! (j * 3)"

definition item_weight :: "int list \<Rightarrow> nat \<Rightarrow> int" where
  "item_weight objs j = objs ! (j * 3 + 1)"

definition item_flag :: "int list \<Rightarrow> nat \<Rightarrow> int" where
  "item_flag objs j = objs ! (j * 3 + 2)"

definition table_cell :: "int list \<Rightarrow> int \<Rightarrow> nat \<Rightarrow> nat \<Rightarrow> int" where
  \<comment> \<open>\<open>table[p][k]\<close>, read at the subscript the program computes for it\<close>
  "table_cell vals c p k = vals ! cell_index c p k"

definition valid_call :: "int \<Rightarrow> int \<Rightarrow> int list \<Rightarrow> bool" where
  \<comment> \<open>the arguments \<open>main\<close> can pass: a count, a capacity and the \<open>3n\<close> cells of the
      items, all of them \<open>int\<close>s, with a table size \<open>(n+1)*(c+1)\<close> that is an \<open>int\<close>\<close>
  "valid_call n c objs \<longleftrightarrow>
     0 \<le> n \<and> 0 \<le> c \<and> (n + 1) * (c + 1) \<le> INT_MAX \<and> length objs = nat n * 3 \<and>
     (\<forall>x \<in> set objs. INT_MIN \<le> x \<and> x \<le> INT_MAX)"

definition nonneg_items :: "int \<Rightarrow> int list \<Rightarrow> bool" where
  "nonneg_items n objs \<longleftrightarrow>
     (\<forall>j < nat n. 0 \<le> item_value objs j \<and> 0 \<le> item_weight objs j)"

definition total_value :: "int list \<Rightarrow> nat set \<Rightarrow> int" where
  "total_value objs S = (\<Sum>j\<in>S. item_value objs j)"

definition total_weight :: "int list \<Rightarrow> nat set \<Rightarrow> int" where
  "total_weight objs S = (\<Sum>j\<in>S. item_weight objs j)"

definition feasible :: "int list \<Rightarrow> nat \<Rightarrow> int \<Rightarrow> nat set set" where
  \<comment> \<open>the subsets of the first \<open>p\<close> items whose total weight is at most \<open>cap\<close>\<close>
  "feasible objs p cap = {S \<in> Pow {..<p}. total_weight objs S \<le> cap}"

definition best_value :: "int list \<Rightarrow> nat \<Rightarrow> int \<Rightarrow> int" where
  \<comment> \<open>the brute-force optimum\<close>
  "best_value objs p cap = Max (total_value objs ` feasible objs p cap)"

text \<open>
  The contents of the table in closed form: \<open>tab objs p k\<close> follows the assignment of
  \<open>dp_cell\<close> with rows and columns as arguments. It is the loop invariant of the builder.
\<close>

fun tab :: "int list \<Rightarrow> nat \<Rightarrow> nat \<Rightarrow> int" where
  "tab objs 0 k = 0"
| "tab objs (Suc p) k =
     (if k < size_of_int (item_weight objs p) then tab objs p k
      else if tab objs p k
          \<ge> int_wrap (tab objs p (k - size_of_int (item_weight objs p)) + item_value objs p)
        then tab objs p k
        else int_wrap (tab objs p (k - size_of_int (item_weight objs p)) + item_value objs p))"

text \<open>
  The same recurrence over the unbounded integers. It is a device of the proofs only: it is
  shown to be \<open>best_value\<close>, the maximum over the subsets, and to be the table as long as
  it is at most \<open>INT_MAX\<close>.
\<close>

fun opt :: "int list \<Rightarrow> nat \<Rightarrow> nat \<Rightarrow> int" where
  "opt objs 0 k = 0"
| "opt objs (Suc p) k =
     (if int k < item_weight objs p then opt objs p k
      else max (opt objs p k)
        (opt objs p (k - nat (item_weight objs p)) + item_value objs p))"

definition entry :: "int list \<Rightarrow> nat \<Rightarrow> nat \<Rightarrow> int" where
  \<comment> \<open>the cell at flat position \<open>t\<close> of a table with rows of \<open>C + 1\<close> cells\<close>
  "entry objs C t = tab objs (t div (C + 1)) (t mod (C + 1))"

definition filled :: "int list \<Rightarrow> nat \<Rightarrow> nat \<Rightarrow> nat \<Rightarrow> int list" where
  \<comment> \<open>the array when the cells before position \<open>t\<close> have been assigned\<close>
  "filled objs C len t = map (\<lambda>j. if j < t then entry objs C j else 0) [0..<len]"

text \<open>
  The backtrace stopped when its counter has come down to \<open>j\<close>: the state in which the
  iteration for \<open>i = j\<close> starts. With \<open>j = 0\<close> it is the whole loop.
\<close>

fun bt_until :: "int \<Rightarrow> nat \<Rightarrow> nat \<Rightarrow> bt_state \<Rightarrow> bt_state option" where
  "bt_until c j i s =
     (if i > j then
        (case bt_body c i s of None \<Rightarrow> None | Some s' \<Rightarrow> bt_until c j (i - 1) s')
      else Some s)"

text \<open>The subscripts of \<open>objs\<close> that the loop assigns to, in the order of the assignments.\<close>

fun bt_writes :: "int \<Rightarrow> nat \<Rightarrow> bt_state \<Rightarrow> nat list option" where
  "bt_writes c i s =
     (if i > 0 then
        (case bt_body c i s of
           None \<Rightarrow> None
         | Some s' \<Rightarrow>
             (case bt_writes c (i - 1) s' of
                None \<Rightarrow> None
              | Some ws \<Rightarrow>
                  Some (if bt_differs c i s = Some True then obj_index i 2 # ws else ws)))
      else Some [])"

definition same_items :: "int \<Rightarrow> int list \<Rightarrow> int list \<Rightarrow> bool" where
  \<comment> \<open>two item arrays that differ at most in the flags of the first \<open>n\<close> items\<close>
  "same_items n objs objs' \<longleftrightarrow>
     length objs' = length objs \<and>
     (\<forall>j < nat n. item_value objs' j = item_value objs j \<and>
        item_weight objs' j = item_weight objs j)"

declare dp_cols.simps [code]
declare dp_rows.simps [code]
declare bt_loop.simps [simp del]
declare digits.simps [simp del]
declare print_flags.simps [simp del]
declare read_objs.simps [simp del]
declare bt_until.simps [simp del]
declare bt_writes.simps [simp del]

section \<open>Arithmetic of the two integer types within their ranges\<close>

lemma size_wrap_id: "x < 18446744073709551616 \<Longrightarrow> size_wrap x = x"
  by (simp add: size_wrap_def)

lemma size_of_int_nat: "0 \<le> x \<Longrightarrow> x < 18446744073709551616 \<Longrightarrow> size_of_int x = nat x"
  by (simp add: size_of_int_def)

lemma size_of_int_less: "size_of_int x < 18446744073709551616"
  by (simp add: size_of_int_def nat_less_iff)

lemma int_wrap_id: "INT_MIN \<le> x \<Longrightarrow> x \<le> INT_MAX \<Longrightarrow> int_wrap x = x"
  by (simp add: int_wrap_def INT_MIN_def INT_MAX_def)

lemma int_wrap_range: "INT_MIN \<le> int_wrap x \<and> int_wrap x \<le> INT_MAX"
proof -
  have "0 \<le> (x + 2147483648) mod 4294967296" "(x + 2147483648) mod 4294967296 < 4294967296"
    by simp_all
  then show ?thesis
    unfolding int_wrap_def INT_MIN_def INT_MAX_def by linarith
qed

lemma int_wrap_overflow:
  "INT_MAX < x \<Longrightarrow> x \<le> 2 * INT_MAX \<Longrightarrow> int_wrap x < 0"
proof -
  assume a: "INT_MAX < x" "x \<le> 2 * INT_MAX"
  have "(x + 2147483648) mod 4294967296 = x + 2147483648 - 4294967296"
    using a by (simp add: INT_MAX_def mod_pos_geq)
  then show ?thesis using a by (simp add: int_wrap_def INT_MAX_def)
qed

lemma row_width_nat: "0 \<le> c \<Longrightarrow> c < INT_MAX \<Longrightarrow> row_width c = nat c + 1"
  by (simp add: row_width_def int_wrap_id INT_MIN_def INT_MAX_def size_of_int_nat nat_add_distrib)

lemma cell_index_nat:
  "0 \<le> c \<Longrightarrow> c < INT_MAX \<Longrightarrow> i * (nat c + 1) + k < 18446744073709551616
    \<Longrightarrow> cell_index c i k = i * (nat c + 1) + k"
  by (simp add: cell_index_def row_width_nat size_add_def size_mul_def size_wrap_def)

lemma size_sub_nat: "b \<le> a \<Longrightarrow> a < 18446744073709551616 \<Longrightarrow> size_sub a b = a - b"
proof -
  assume a: "b \<le> a" "a < 18446744073709551616"
  have b: "size_wrap b = b"
    using a by (simp add: size_wrap_def)
  have "a + 18446744073709551616 - b = (a - b) + 18446744073709551616"
    using a by simp
  then have "size_wrap (a + 18446744073709551616 - b) = size_wrap ((a - b) + 18446744073709551616)"
    by (rule arg_cong)
  also have "\<dots> = a - b"
  proof -
    have "a - b < 18446744073709551616"
      using a by simp
    then show ?thesis
      by (simp only: size_wrap_def mod_add_self2 mod_less)
  qed
  finally show ?thesis
    by (simp only: size_sub_def b)
qed

lemma obj_index_nat:
  "0 < i \<Longrightarrow> i \<le> 2147483648 \<Longrightarrow> f < 3 \<Longrightarrow> obj_index i f = (i - 1) * 3 + f"
  by (simp add: obj_index_def size_sub_nat size_add_def size_mul_def size_wrap_def)


section \<open>The builder fills the table cell by cell\<close>

lemma cell_bound: "i \<le> Nn \<Longrightarrow> k \<le> C \<Longrightarrow> i * (C + 1) + k < (Nn + 1) * (C + (1::nat))"
proof -
  assume a: "i \<le> Nn" "k \<le> C"
  have "i * (C + 1) \<le> Nn * (C + 1)"
    using a(1) by (rule mult_le_mono1)
  then show ?thesis
    using a(2) by simp
qed

lemma entry_cell:
  assumes "k \<le> C"
  shows "entry objs C (p * (C + 1) + k) = tab objs p k"
proof -
  have "(p * (C + 1) + k) div (C + 1) = p + k div (C + 1)"
    by (rule div_mult_self3) simp
  moreover have "(p * (C + 1) + k) mod (C + 1) = k mod (C + 1)"
    by (rule mod_mult_self3)
  moreover have "k div (C + 1) = 0" "k mod (C + 1) = k"
    using assms by simp_all
  ultimately show ?thesis
    by (simp only: entry_def add_0_right)
qed

lemma filled_length: "length (filled objs C len t) = len"
  by (simp add: filled_def)

lemma filled_nth:
  "j < len \<Longrightarrow> filled objs C len t ! j = (if j < t then entry objs C j else 0)"
  by (simp add: filled_def)

lemma filled_update:
  "t < len \<Longrightarrow> (filled objs C len t)[t := entry objs C t] = filled objs C len (Suc t)"
  by (rule nth_equalityI) (auto simp: filled_length filled_nth nth_list_update)

lemma load_filled:
  "j < t \<Longrightarrow> j < len \<Longrightarrow> load (filled objs C len t) j = Some (entry objs C j)"
  by (simp add: load_def filled_length filled_nth)

lemma store_filled:
  "t < len \<Longrightarrow> x = entry objs C t
    \<Longrightarrow> store (filled objs C len t) t x = Some (filled objs C len (Suc t))"
  by (simp add: store_def filled_length filled_update)

lemma dp_cell_filled:
  assumes c: "0 \<le> c" and sz: "(Nn + 1) * (nat c + 1) \<le> 2147483647"
    and i: "0 < i" "i \<le> Nn" and k: "k \<le> nat c" and objs: "Nn * 3 \<le> length objs"
  shows "dp_cell c objs i k (filled objs (nat c) ((Nn + 1) * (nat c + 1)) (i * (nat c + 1) + k))
    = Some (filled objs (nat c) ((Nn + 1) * (nat c + 1)) (Suc (i * (nat c + 1) + k)))"
proof -
  define C where "C = nat c"
  define len where "len = (Nn + 1) * (C + 1)"
  define t where "t = i * (C + 1) + k"
  define w where "w = item_weight objs (i - 1)"
  define v where "v = item_value objs (i - 1)"
  have len: "len \<le> 2147483647"
    using sz by (simp add: len_def C_def)
  have t_len: "t < len"
    unfolding t_def len_def using i k by (intro cell_bound) (simp_all add: C_def)
  have "1 * (C + 1) \<le> i * (C + 1)"
    using i by (intro mult_le_mono1) simp
  then have C_t: "C + 1 \<le> t"
    by (simp add: t_def)
  have c_lt: "c < INT_MAX"
    using C_t t_len len c by (simp add: C_def INT_MAX_def)
  have i_small: "i \<le> 2147483648"
  proof -
    have "i * 1 \<le> i * (C + 1)" by (intro mult_le_mono2) simp
    then show ?thesis using t_len len by (simp add: t_def)
  qed
  have prev_lt: "(i - 1) * (C + 1) + j < t" if "j \<le> k" for j
  proof -
    have "(i - 1) * (C + 1) + (C + 1) = i * (C + 1)"
      using i by (cases i) simp_all
    then show ?thesis using that k by (simp add: t_def C_def)
  qed
  have ix_cur: "cell_index c i k = t"
    using t_len len c c_lt by (simp add: cell_index_nat t_def C_def)
  have ix_prev: "cell_index c (size_sub i 1) j = (i - 1) * (C + 1) + j" if "j \<le> k" for j
  proof -
    have "size_sub i 1 = i - 1"
      using i i_small by (simp add: size_sub_nat)
    moreover have "(i - 1) * (nat c + 1) + j < 18446744073709551616"
      using prev_lt [OF that] t_len len by (simp add: C_def)
    ultimately show ?thesis
      using c c_lt by (simp add: cell_index_nat C_def)
  qed
  have objs_lt: "(i - 1) * 3 + 2 < length objs"
    using i objs by (cases i) simp_all
  have ld_v: "load objs (size_mul (size_sub i 1) 3) = Some v"
  proof -
    have "size_mul (size_sub i 1) 3 = (i - 1) * 3"
      using i i_small by (simp add: size_sub_nat size_mul_def size_wrap_def)
    then show ?thesis
      using objs_lt by (simp add: load_def v_def item_value_def)
  qed
  have ld_w: "load objs (obj_index i 1) = Some w"
    using i i_small objs_lt by (simp add: obj_index_nat load_def w_def item_weight_def)
  have ld_prev: "load (filled objs C len t) ((i - 1) * (C + 1) + j) = Some (tab objs (i - 1) j)"
    if "j \<le> k" for j
  proof -
    have "j \<le> C" using that k by (simp add: C_def)
    then have "entry objs C ((i - 1) * (C + 1) + j) = tab objs (i - 1) j"
      by (rule entry_cell)
    moreover have "(i - 1) * (C + 1) + j < len"
      using prev_lt [OF that] t_len by simp
    ultimately show ?thesis
      using load_filled [OF prev_lt [OF that]] by simp
  qed
  have tab_i: "entry objs C t = tab objs (Suc (i - 1)) k"
  proof -
    have "k \<le> C" using k by (simp add: C_def)
    then have "entry objs C (i * (C + 1) + k) = tab objs i k"
      by (rule entry_cell)
    then show ?thesis
      using i by (simp add: t_def del: tab.simps)
  qed
  have "dp_cell c objs i k (filled objs C len t) = Some (filled objs C len (Suc t))"
  proof (cases "k < size_of_int w")
    case True
    then have e: "tab objs (i - 1) k = entry objs C t"
      by (simp add: tab_i w_def)
    show ?thesis
      unfolding dp_cell_def
      by (simp only: ld_v ld_w Option.bind.bind_lunit True if_True ix_cur
          ix_prev [OF le_refl] ld_prev [OF le_refl] store_filled [OF t_len e])
  next
    case False
    moreover have "k < 18446744073709551616"
      using k C_t t_len len by (simp add: C_def)
    ultimately have sub: "size_sub k (size_of_int w) = k - size_of_int w"
      by (intro size_sub_nat) simp_all
    have le: "k - size_of_int w \<le> k" by simp
    have e: "(if tab objs (i - 1) k \<ge> int_wrap (tab objs (i - 1) (k - size_of_int w) + v)
       then tab objs (i - 1) k
       else int_wrap (tab objs (i - 1) (k - size_of_int w) + v)) = entry objs C t"
      using False by (simp add: tab_i w_def v_def)
    show ?thesis
      unfolding dp_cell_def
      by (simp only: ld_v ld_w Option.bind.bind_lunit False if_False ix_cur sub
          ix_prev [OF le_refl] ld_prev [OF le_refl] ix_prev [OF le] ld_prev [OF le]
          store_filled [OF t_len e])
  qed
  then show ?thesis
    by (simp only: C_def len_def t_def)
qed


lemma dp_cols_filled:
  assumes c: "0 \<le> c" and sz: "(Nn + 1) * (nat c + 1) \<le> 2147483647"
    and i: "0 < i" "i \<le> Nn" and objs: "Nn * 3 \<le> length objs"
  shows "k \<le> nat c + 1 \<Longrightarrow>
    dp_cols c objs i k (filled objs (nat c) ((Nn + 1) * (nat c + 1)) (i * (nat c + 1) + k))
    = Some (filled objs (nat c) ((Nn + 1) * (nat c + 1)) (Suc i * (nat c + 1)))"
proof (induction "nat c + 1 - k" arbitrary: k)
  case 0
  then have k: "k = nat c + 1" by simp
  have "nat c < 18446744073709551616"
    using sz by (cases Nn) simp_all
  then have "size_of_int c = nat c"
    using c by (simp add: size_of_int_def)
  then have guard: "\<not> k \<le> size_of_int c"
    using k by simp
  have "i * (nat c + 1) + k = Suc i * (nat c + 1)"
    using k by simp
  then show ?case
    by (subst dp_cols.simps) (simp only: guard if_False)
next
  case (Suc m)
  then have k: "k \<le> nat c" by simp
  have small: "nat c < 2147483647"
    using sz i by (cases Nn) simp_all
  then have "size_of_int c = nat c"
    using c by (simp add: size_of_int_def)
  then have guard: "k \<le> size_of_int c"
    using k by simp
  have next_k: "size_add k 1 = Suc k"
    using k small by (simp add: size_add_def size_wrap_def)
  have "m = nat c + 1 - Suc k" "Suc k \<le> nat c + 1"
    using Suc.hyps(2) k by simp_all
  from Suc.hyps(1) [OF this]
  have "dp_cols c objs i (Suc k)
      (filled objs (nat c) ((Nn + 1) * (nat c + 1)) (Suc (i * (nat c + 1) + k)))
    = Some (filled objs (nat c) ((Nn + 1) * (nat c + 1)) (Suc i * (nat c + 1)))"
    by simp
  then show ?case
    by (subst dp_cols.simps)
      (simp only: guard if_True dp_cell_filled [OF c sz i k objs] Option.bind.bind_lunit next_k)
qed

lemma dp_rows_filled:
  assumes c: "0 \<le> c" and sz: "(Nn + 1) * (nat c + 1) \<le> 2147483647"
    and objs: "Nn * 3 \<le> length objs"
  shows "0 < i \<Longrightarrow> i \<le> Nn + 1 \<Longrightarrow>
    dp_rows (int Nn) c objs i (filled objs (nat c) ((Nn + 1) * (nat c + 1)) (i * (nat c + 1)))
    = Some (filled objs (nat c) ((Nn + 1) * (nat c + 1)) ((Nn + 1) * (nat c + 1)))"
proof (induction "Nn + 1 - i" arbitrary: i)
  case 0
  then have i: "i = Nn + 1" by simp
  have "Nn * 1 \<le> Nn * (nat c + 1)" by (rule mult_le_mono2) simp
  then have Nn: "Nn < 2147483647"
    using sz by simp
  then have "size_of_int (int Nn) = Nn"
    by (simp add: size_of_int_def)
  then have "\<not> i \<le> size_of_int (int Nn)"
    using i by simp
  then show ?case
    by (subst dp_rows.simps) (simp add: i)
next
  case (Suc m)
  then have i: "0 < i" "i \<le> Nn" by simp_all
  have "Nn * 1 \<le> Nn * (nat c + 1)" by (rule mult_le_mono2) simp
  then have Nn: "Nn < 2147483647"
    using sz by simp
  then have "size_of_int (int Nn) = Nn"
    by (simp add: size_of_int_def)
  then have guard: "i \<le> size_of_int (int Nn)"
    using i by simp
  have next_i: "size_add i 1 = Suc i"
    using i Nn by (simp add: size_add_def size_wrap_def)
  have "m = Nn + 1 - Suc i" "0 < Suc i" "Suc i \<le> Nn + 1"
    using Suc.hyps(2) i by simp_all
  note IH = Suc.hyps(1) [OF this]
  have cols: "dp_cols c objs i 0 (filled objs (nat c) ((Nn + 1) * (nat c + 1)) (i * (nat c + 1)))
    = Some (filled objs (nat c) ((Nn + 1) * (nat c + 1)) (Suc i * (nat c + 1)))"
    using dp_cols_filled [OF c sz i objs, of 0] by simp
  show ?case
    by (subst dp_rows.simps)
      (simp only: guard if_True cols Option.bind.bind_lunit next_i IH)
qed

lemma filled_row0: "filled objs C len (C + 1) = replicate len 0"
proof (rule nth_equalityI)
  show "length (filled objs C len (C + 1)) = length (replicate len (0::int))"
    by (simp add: filled_length)
next
  fix j
  assume "j < length (filled objs C len (C + 1))"
  then have j: "j < len"
    by (simp add: filled_length)
  have "entry objs C j = 0" if "j < C + 1"
    using that by (simp add: entry_def)
  then show "filled objs C len (C + 1) ! j = replicate len 0 ! j"
    using j by (simp add: filled_nth)
qed

lemma filled_all: "filled objs C len len = map (entry objs C) [0..<len]"
  by (simp add: filled_def)

lemma valid_sizes:
  assumes "0 \<le> n" "0 \<le> c" "(n + 1) * (c + 1) \<le> INT_MAX"
  shows "n < INT_MAX" "c < INT_MAX" "(nat n + 1) * (nat c + 1) \<le> 2147483647"
    "nat ((n + 1) * (c + 1)) = (nat n + 1) * (nat c + 1)"
proof -
  have "n + 1 \<le> (n + 1) * (c + 1)"
    using mult_left_mono [of 1 "c + 1" "n + 1"] assms by simp
  with assms(3) show "n < INT_MAX" by linarith
  have "c + 1 \<le> (n + 1) * (c + 1)"
    using mult_right_mono [of 1 "n + 1" "c + 1"] assms by simp
  with assms(3) show "c < INT_MAX" by linarith
  show eq: "nat ((n + 1) * (c + 1)) = (nat n + 1) * (nat c + 1)"
    using assms by (simp add: nat_mult_distrib nat_add_distrib)
  have "nat ((n + 1) * (c + 1)) \<le> nat INT_MAX"
    using assms by simp
  then show "(nat n + 1) * (nat c + 1) \<le> 2147483647"
    by (simp only: eq) (simp add: INT_MAX_def)
qed

lemma dp_table_filled:
  assumes "0 \<le> n" "0 \<le> c" "(n + 1) * (c + 1) \<le> INT_MAX" "nat n * 3 \<le> length objs"
  shows "dp_table n c objs = Some (map (entry objs (nat c)) [0..<(nat n + 1) * (nat c + 1)])"
proof -
  note v = valid_sizes [OF assms(1-3)]
  have "INT_MIN \<le> n + 1" "n + 1 \<le> INT_MAX" "INT_MIN \<le> c + 1" "c + 1 \<le> INT_MAX"
    using v(1,2) assms(1,2) by (simp_all add: INT_MIN_def)
  moreover have "INT_MIN \<le> (n + 1) * (c + 1)"
  proof -
    have "0 \<le> (n + 1) * (c + 1)"
      using assms(1,2) by (intro mult_nonneg_nonneg) simp_all
    then show ?thesis by (simp add: INT_MIN_def)
  qed
  ultimately have e1: "int_wrap (int_wrap (n + 1) * int_wrap (c + 1)) = (n + 1) * (c + 1)"
    using assms(3) by (simp only: int_wrap_id)
  have e2: "size_of_int ((n + 1) * (c + 1)) = (nat n + 1) * (nat c + 1)"
    using assms v(4) by (simp add: size_of_int_nat INT_MAX_def)
  have e3: "calloc ((nat n + 1) * (nat c + 1)) = replicate ((nat n + 1) * (nat c + 1)) 0"
    using v(3) by (simp add: calloc_def)
  have e4: "int (nat n) = n"
    using assms(1) by simp
  have "dp_table n c objs
    = dp_rows (int (nat n)) c objs 1
        (filled objs (nat c) ((nat n + 1) * (nat c + 1)) (1 * (nat c + 1)))"
    unfolding dp_table_def by (simp only: e1 e2 e3 e4 filled_row0 mult_1)
  also have "\<dots> = Some (filled objs (nat c) ((nat n + 1) * (nat c + 1))
      ((nat n + 1) * (nat c + 1)))"
    using assms by (intro dp_rows_filled v(3)) simp_all
  finally show ?thesis
    by (simp only: filled_all)
qed

section \<open>The contents of the table\<close>

lemma tab_range: "0 \<le> tab objs p k \<and> tab objs p k \<le> INT_MAX"
proof (induction p arbitrary: k)
  case 0
  show ?case by (simp add: INT_MAX_def)
next
  case (Suc p)
  show ?case
    using Suc [of k] int_wrap_range [of "tab objs p (k - size_of_int (item_weight objs p)) + item_value objs p"]
    by auto
qed

lemma tab_mono_items: "tab objs p k \<le> tab objs (Suc p) k"
  by simp

lemma item_in_range:
  assumes "valid_call n c objs" "j < nat n"
  shows "INT_MIN \<le> item_value objs j" "item_value objs j \<le> INT_MAX"
    "INT_MIN \<le> item_weight objs j" "item_weight objs j \<le> INT_MAX"
    "INT_MIN \<le> item_flag objs j" "item_flag objs j \<le> INT_MAX"
proof -
  have len: "length objs = nat n * 3" and rng: "\<forall>x \<in> set objs. INT_MIN \<le> x \<and> x \<le> INT_MAX"
    using assms(1) by (simp_all add: valid_call_def)
  have "j * 3 < length objs" "j * 3 + 1 < length objs" "j * 3 + 2 < length objs"
    using assms(2) len by simp_all
  then have "objs ! (j * 3) \<in> set objs" "objs ! (j * 3 + 1) \<in> set objs"
    "objs ! (j * 3 + 2) \<in> set objs"
    by (simp_all only: nth_mem)
  with rng show "INT_MIN \<le> item_value objs j" "item_value objs j \<le> INT_MAX"
    "INT_MIN \<le> item_weight objs j" "item_weight objs j \<le> INT_MAX"
    "INT_MIN \<le> item_flag objs j" "item_flag objs j \<le> INT_MAX"
    by (simp_all only: item_value_def item_weight_def item_flag_def)
qed

lemma size_of_weight:
  assumes "0 \<le> w" "w \<le> INT_MAX"
  shows "size_of_int w = nat w"
  using assms by (simp add: size_of_int_nat INT_MAX_def)

text \<open>When a cell differs from the one above it, the item fits and its value was added exactly.\<close>

lemma tab_differs:
  assumes v: "0 \<le> item_value objs p" "item_value objs p \<le> INT_MAX"
    and w: "0 \<le> item_weight objs p" "item_weight objs p \<le> INT_MAX"
    and d: "tab objs (Suc p) k \<noteq> tab objs p k"
  shows "nat (item_weight objs p) \<le> k"
    and "tab objs (Suc p) k = tab objs p (k - nat (item_weight objs p)) + item_value objs p"
    and "tab objs p k < tab objs p (k - nat (item_weight objs p)) + item_value objs p"
proof -
  define b where "b = tab objs p (k - nat (item_weight objs p))"
  define x where "x = b + item_value objs p"
  note sw = size_of_weight [OF w]
  from d show fits: "nat (item_weight objs p) \<le> k"
    by (simp add: sw split: if_splits)
  from d fits have gt: "tab objs p k < int_wrap x" and eq: "tab objs (Suc p) k = int_wrap x"
    by (simp_all add: sw x_def b_def split: if_splits)
  have "0 \<le> b" "b \<le> INT_MAX"
    using tab_range [of objs p] by (simp_all add: b_def)
  then have x: "0 \<le> x" "x \<le> 2 * INT_MAX"
    using v by (simp_all add: x_def)
  have "x \<le> INT_MAX"
  proof (rule ccontr)
    assume "\<not> x \<le> INT_MAX"
    then have "int_wrap x < 0"
      using x by (intro int_wrap_overflow) simp_all
    moreover have "0 \<le> tab objs p k"
      using tab_range by simp
    ultimately show False using gt by simp
  qed
  then have "int_wrap x = x"
    using x by (intro int_wrap_id) (simp_all add: INT_MIN_def)
  with gt eq show "tab objs (Suc p) k = tab objs p (k - nat (item_weight objs p)) + item_value objs p"
    "tab objs p k < tab objs p (k - nat (item_weight objs p)) + item_value objs p"
    by (simp_all add: x_def b_def)
qed

lemma finite_feasible: "finite (feasible objs p cap)"
  by (simp add: feasible_def)

lemma opt_attained:
  assumes "nonneg_items n objs"
  shows "p \<le> nat n \<Longrightarrow> \<exists>S \<in> feasible objs p (int k). total_value objs S = opt objs p k"
proof (induction p arbitrary: k)
  case 0
  have "{} \<in> feasible objs 0 (int k)"
    by (simp add: feasible_def total_weight_def)
  then show ?case
    by (intro bexI [of _ "{}"]) (simp_all add: total_value_def)
next
  case (Suc p)
  then have p: "p < nat n" "p \<le> nat n" by simp_all
  have nn: "0 \<le> item_weight objs p"
    using assms p(1) by (simp add: nonneg_items_def)
  define k' where "k' = k - nat (item_weight objs p)"
  show ?case
  proof (cases "opt objs (Suc p) k = opt objs p k")
    case True
    from Suc.IH [OF p(2), of k] obtain S where S: "S \<in> feasible objs p (int k)"
      "total_value objs S = opt objs p k" by auto
    then have "S \<in> feasible objs (Suc p) (int k)"
      by (auto simp: feasible_def)
    with S True show ?thesis by auto
  next
    case False
    then have fits: "item_weight objs p \<le> int k"
      and eq: "opt objs (Suc p) k = opt objs p k' + item_value objs p"
      by (auto simp: k'_def max_def split: if_splits)
    from Suc.IH [OF p(2), of k'] obtain S where S: "S \<in> feasible objs p (int k')"
      "total_value objs S = opt objs p k'" by auto
    then have sub: "S \<subseteq> {..<p}" and fin: "finite S" and notin: "p \<notin> S"
      by (auto simp: feasible_def intro: finite_subset)
    have "total_weight objs (insert p S) = item_weight objs p + total_weight objs S"
      using fin notin by (simp add: total_weight_def)
    moreover have "total_weight objs S \<le> int k'"
      using S(1) by (simp add: feasible_def)
    ultimately have "total_weight objs (insert p S) \<le> int k"
      using fits nn by (simp add: k'_def)
    then have "insert p S \<in> feasible objs (Suc p) (int k)"
      using sub by (auto simp: feasible_def)
    moreover have "total_value objs (insert p S) = opt objs (Suc p) k"
      using fin notin S(2) by (simp only: eq) (simp add: total_value_def)
    ultimately show ?thesis by blast
  qed
qed

lemma opt_upper:
  assumes "nonneg_items n objs"
  shows "p \<le> nat n \<Longrightarrow> S \<in> feasible objs p (int k) \<Longrightarrow> total_value objs S \<le> opt objs p k"
proof (induction p arbitrary: S k)
  case 0
  then show ?case by (simp add: feasible_def total_value_def)
next
  case (Suc p)
  then have p: "p < nat n" "p \<le> nat n" by simp_all
  have nn: "0 \<le> item_weight objs p"
    using assms p(1) by (simp add: nonneg_items_def)
  from Suc.prems(2) have sub: "S \<subseteq> {..<Suc p}" and wt: "total_weight objs S \<le> int k"
    by (simp_all add: feasible_def)
  have fin: "finite S" using sub by (rule finite_subset) simp
  show ?case
  proof (cases "p \<in> S")
    case False
    with sub have "S \<subseteq> {..<p}"
      using less_Suc_eq by auto
    with wt have "S \<in> feasible objs p (int k)"
      by (simp add: feasible_def)
    from Suc.IH [OF p(2) this] show ?thesis by (simp add: le_max_iff_disj)
  next
    case True
    define S' where "S' = S - {p}"
    have S: "S = insert p S'" "p \<notin> S'" "finite S'"
      using True fin by (auto simp: S'_def)
    have sub': "S' \<subseteq> {..<p}"
      using sub less_Suc_eq by (auto simp: S'_def)
    have w_split: "total_weight objs S = item_weight objs p + total_weight objs S'"
      by (subst S(1)) (simp add: total_weight_def S(2,3))
    have v_split: "total_value objs S = item_value objs p + total_value objs S'"
      by (subst S(1)) (simp add: total_value_def S(2,3))
    have "0 \<le> total_weight objs S'"
      unfolding total_weight_def
    proof (rule sum_nonneg)
      fix j assume "j \<in> S'"
      then have "j < nat n" using sub' p(1) by auto
      then show "0 \<le> item_weight objs j"
        using assms by (simp add: nonneg_items_def)
    qed
    then have fits: "item_weight objs p \<le> int k"
      and rest: "total_weight objs S' \<le> int (k - nat (item_weight objs p))"
      using wt nn by (simp_all add: w_split)
    from rest sub' have "S' \<in> feasible objs p (int (k - nat (item_weight objs p)))"
      by (simp add: feasible_def)
    from Suc.IH [OF p(2) this]
    have "total_value objs S' \<le> opt objs p (k - nat (item_weight objs p))" .
    then show ?thesis
      using fits by (simp add: v_split)
  qed
qed

text \<open>The recurrence over the integers computes the brute-force optimum.\<close>

lemma opt_best_value:
  assumes "nonneg_items n objs" "p \<le> nat n"
  shows "best_value objs p (int k) = opt objs p k"
  unfolding best_value_def
proof (rule Max_eqI)
  show "finite (total_value objs ` feasible objs p (int k))"
    by (intro finite_imageI finite_feasible)
  from opt_attained [OF assms, of k]
  show "opt objs p k \<in> total_value objs ` feasible objs p (int k)"
    by (metis imageI)
  fix y assume "y \<in> total_value objs ` feasible objs p (int k)"
  then obtain T where "T \<in> feasible objs p (int k)" "y = total_value objs T"
    by auto
  then show "y \<le> opt objs p k"
    using opt_upper [OF assms] by simp
qed

lemma opt_mono:
  assumes "nonneg_items n objs" "p \<le> q" "q \<le> nat n" "k \<le> k'"
  shows "opt objs p k \<le> opt objs q k'"
proof -
  have p: "p \<le> nat n" using assms(2,3) by simp
  from opt_attained [OF assms(1) p, of k]
  obtain S where S: "S \<in> feasible objs p (int k)" "total_value objs S = opt objs p k"
    by auto
  then have "S \<in> feasible objs q (int k')"
    using assms(2,4) by (auto simp: feasible_def)
  from opt_upper [OF assms(1,3) this] S(2) show ?thesis
    by simp
qed

text \<open>
  When the optimum of the first \<open>q\<close> items at capacity \<open>c\<close> is an \<open>int\<close>, no sum in the
  first \<open>q\<close> rows of the table overflows, and these rows hold the optima.
\<close>

lemma tab_opt:
  assumes "valid_call n c objs" "nonneg_items n objs"
    and q: "q \<le> nat n" and fit: "opt objs q (nat c) \<le> INT_MAX"
  shows "p \<le> q \<Longrightarrow> k \<le> nat c \<Longrightarrow> tab objs p k = opt objs p k"
proof (induction p arbitrary: k)
  case 0
  show ?case by simp
next
  case (Suc p)
  then have p: "p < nat n" "p \<le> q" "Suc p \<le> q"
    using q by simp_all
  note r = item_in_range [OF assms(1) p(1)]
  have nn: "0 \<le> item_value objs p" "0 \<le> item_weight objs p"
    using assms(2) p(1) by (simp_all add: nonneg_items_def)
  note sw = size_of_weight [OF nn(2) r(4)]
  define k' where "k' = k - nat (item_weight objs p)"
  have k': "k' \<le> nat c"
    using Suc.prems(2) by (simp add: k'_def)
  have a: "tab objs p k = opt objs p k" and b: "tab objs p k' = opt objs p k'"
    using Suc.IH [OF p(2) Suc.prems(2)] Suc.IH [OF p(2) k'] by simp_all
  show ?case
  proof (cases "int k < item_weight objs p")
    case True
    then have "k < nat (item_weight objs p)"
      using nn(2) by simp
    then show ?thesis
      using True a by (simp add: sw)
  next
    case False
    then have nlt: "\<not> k < nat (item_weight objs p)"
      using nn(2) by simp
    define x where "x = opt objs p k' + item_value objs p"
    have "x \<le> opt objs (Suc p) k"
      using False by (simp add: x_def k'_def)
    also have "\<dots> \<le> opt objs q (nat c)"
      using p(3) q Suc.prems(2) by (intro opt_mono [OF assms(2)])
    finally have "x \<le> INT_MAX"
      using fit by simp
    moreover have "0 \<le> x"
      using tab_range [of objs p k'] nn(1) by (simp add: x_def b [symmetric])
    ultimately have "int_wrap x = x"
      by (intro int_wrap_id) (simp_all add: INT_MIN_def)
    then show ?thesis
      using False nlt a b by (simp add: sw x_def k'_def [symmetric] max_def)
  qed
qed

lemma tab_best_value:
  assumes "valid_call n c objs" "nonneg_items n objs"
    and "q \<le> nat n" and "best_value objs q c \<le> INT_MAX" and "p \<le> q" and "k \<le> nat c"
  shows "tab objs p k = best_value objs p (int k)"
proof -
  have c: "0 \<le> c"
    using assms(1) by (simp add: valid_call_def)
  have "best_value objs q (int (nat c)) = opt objs q (nat c)"
    using assms(2,3) by (rule opt_best_value)
  then have "opt objs q (nat c) \<le> INT_MAX"
    using assms(4) c by simp
  from tab_opt [OF assms(1,2,3) this assms(5,6)]
  have "tab objs p k = opt objs p k" .
  moreover have "best_value objs p (int k) = opt objs p k"
    using assms(3,5) by (intro opt_best_value [OF assms(2)]) simp
  ultimately show ?thesis by simp
qed

lemma tab_rec_exact:
  assumes "valid_call n c objs" and p: "p < nat n" and w: "0 \<le> item_weight objs p"
    and x: "tab objs p (k - nat (item_weight objs p)) + item_value objs p \<le> INT_MAX"
  shows "tab objs (Suc p) k =
    (if int k < item_weight objs p then tab objs p k
     else max (tab objs p k) (tab objs p (k - nat (item_weight objs p)) + item_value objs p))"
proof -
  note r = item_in_range [OF assms(1) p]
  note sw = size_of_weight [OF w r(4)]
  have "INT_MIN \<le> tab objs p (k - nat (item_weight objs p)) + item_value objs p"
    using tab_range [of objs p "k - nat (item_weight objs p)"] r(1) by simp
  then have "int_wrap (tab objs p (k - nat (item_weight objs p)) + item_value objs p)
    = tab objs p (k - nat (item_weight objs p)) + item_value objs p"
    using x by (rule int_wrap_id)
  then show ?thesis
    using w by (auto simp: sw)
qed

text \<open>Reading the array the builder returns.\<close>

lemma dp_table_cells:
  assumes "valid_call n c objs"
  shows "\<exists>vals. dp_table n c objs = Some vals \<and> length vals = (nat n + 1) * (nat c + 1) \<and>
    (\<forall>p k. p \<le> nat n \<and> k \<le> nat c \<longrightarrow>
       cell_index c p k = p * (nat c + 1) + k \<and> cell_index c p k < length vals \<and>
       table_cell vals c p k = tab objs p k)"
proof -
  have a: "0 \<le> n" "0 \<le> c" "(n + 1) * (c + 1) \<le> INT_MAX" "nat n * 3 \<le> length objs"
    using assms by (simp_all add: valid_call_def)
  note v = valid_sizes [OF a(1-3)]
  define vals where "vals = map (entry objs (nat c)) [0..<(nat n + 1) * (nat c + 1)]"
  have tbl: "dp_table n c objs = Some vals"
    unfolding vals_def by (rule dp_table_filled [OF a])
  have len: "length vals = (nat n + 1) * (nat c + 1)"
    by (simp add: vals_def)
  have cells: "cell_index c p k = p * (nat c + 1) + k \<and> cell_index c p k < length vals \<and>
       table_cell vals c p k = tab objs p k" if "p \<le> nat n" "k \<le> nat c" for p k
  proof -
    have lt: "p * (nat c + 1) + k < (nat n + 1) * (nat c + 1)"
      using that by (rule cell_bound)
    then have ix: "cell_index c p k = p * (nat c + 1) + k"
      using a(2) v(2,3) by (intro cell_index_nat) simp_all
    have "vals ! (p * (nat c + 1) + k) = entry objs (nat c) (p * (nat c + 1) + k)"
      unfolding vals_def using lt by (simp only: nth_map_upt add_0)
    also have "\<dots> = tab objs p k"
      using that(2) by (rule entry_cell)
    finally show ?thesis
      using lt by (simp only: table_cell_def ix len)
  qed
  show ?thesis
    using tbl len cells by blast
qed


section \<open>Evaluation on concrete inputs\<close>

lemma replicate_numeral: "replicate (numeral m) x = x # replicate (pred_numeral m) x"
  by (simp add: numeral_eq_Suc)

lemmas c_eval = size_of_int_def int_wrap_def size_add_def size_mul_def size_sub_def size_wrap_def
  cell_index_def obj_index_def row_width_def load_def store_def load_int_def calloc_def
  replicate_numeral

lemmas dp_eval = dp_table_def dp_rows.simps dp_cols.simps dp_cell_def c_eval

lemmas bt_eval = dp_backtrace_def bt_loop.simps bt_body_def bt_differs_def c_eval

lemmas item_eval = item_value_def item_weight_def item_flag_def table_cell_def

section \<open>The optimum\<close>

lemma best_value_all:
  assumes "nonneg_items n objs" "total_weight objs {..<nat n} \<le> cap"
  shows "best_value objs (nat n) cap = total_value objs {..<nat n}"
  unfolding best_value_def
proof (rule Max_eqI)
  show "finite (total_value objs ` feasible objs (nat n) cap)"
    by (intro finite_imageI finite_feasible)
  show "total_value objs {..<nat n} \<in> total_value objs ` feasible objs (nat n) cap"
    using assms(2) by (intro imageI) (simp add: feasible_def)
  fix y assume "y \<in> total_value objs ` feasible objs (nat n) cap"
  then obtain S where S: "S \<subseteq> {..<nat n}" "y = total_value objs S"
    by (auto simp: feasible_def)
  have "total_value objs S \<le> total_value objs {..<nat n}"
    unfolding total_value_def
  proof (rule sum_mono2)
    show "finite {..<nat n}" by simp
    show "S \<subseteq> {..<nat n}" by (rule S(1))
    fix j assume "j \<in> {..<nat n} - S"
    then show "0 \<le> item_value objs j"
      using assms(1) by (simp add: nonneg_items_def)
  qed
  then show "y \<le> total_value objs {..<nat n}"
    by (simp add: S(2))
qed

lemma final_index:
  assumes "0 \<le> n" "0 \<le> c" "(n + 1) * (c + 1) \<le> INT_MAX"
  shows "int_wrap (int_wrap (n * int_wrap (c + 1)) + c) = int (nat n * (nat c + 1) + nat c)"
proof -
  note v = valid_sizes [OF assms]
  have nc: "0 \<le> n * (c + 1)"
    using assms by (intro mult_nonneg_nonneg) simp_all
  have "(n + 1) * (c + 1) = n * (c + 1) + c + 1"
    by (simp add: algebra_simps)
  then have le: "n * (c + 1) + c < INT_MAX"
    using assms(3) by simp
  have "int_wrap (c + 1) = c + 1"
    using v(2) assms(2) by (intro int_wrap_id) (simp_all add: INT_MIN_def)
  moreover have "int_wrap (n * (c + 1)) = n * (c + 1)"
    using nc le assms(2) by (intro int_wrap_id) (simp_all add: INT_MIN_def)
  moreover have "int_wrap (n * (c + 1) + c) = n * (c + 1) + c"
    using nc le assms(2) by (intro int_wrap_id) (simp_all add: INT_MIN_def)
  moreover have "int (nat n * (nat c + 1) + nat c) = n * (c + 1) + c"
    using assms(1,2) by (simp add: algebra_simps)
  ultimately show ?thesis
    by (simp only:)
qed

text \<open>
  C1. For a valid call with non-negative values and weights, whenever the maximum total
  value over the subsets of the items whose total weight is at most \<open>c\<close> is itself at
  most \<open>INT_MAX\<close>, the cell \<open>vals[n*(c+1) + c]\<close> that \<open>dp_knapsack\<close> reads after the
  loops is that maximum. (A cell is an \<open>int\<close>, so it cannot hold a larger maximum.)
\<close>

theorem dp_table_optimal:
  assumes "valid_call n c objs" and "nonneg_items n objs"
    and "best_value objs (nat n) c \<le> INT_MAX"
  shows "\<exists>vals. dp_table n c objs = Some vals \<and>
    load_int vals (int_wrap (int_wrap (n * int_wrap (c + 1)) + c))
      = Some (best_value objs (nat n) c)"
proof -
  have a: "0 \<le> n" "0 \<le> c" "(n + 1) * (c + 1) \<le> INT_MAX"
    using assms(1) by (simp_all add: valid_call_def)
  from dp_table_cells [OF assms(1)] obtain vals where
    tbl: "dp_table n c objs = Some vals" and
    cells: "\<And>p k. p \<le> nat n \<Longrightarrow> k \<le> nat c \<Longrightarrow>
       cell_index c p k = p * (nat c + 1) + k \<and> cell_index c p k < length vals \<and>
       table_cell vals c p k = tab objs p k"
    by blast
  have "cell_index c (nat n) (nat c) = nat n * (nat c + 1) + nat c \<and>
      cell_index c (nat n) (nat c) < length vals \<and>
      table_cell vals c (nat n) (nat c) = tab objs (nat n) (nat c)"
    by (rule cells) simp_all
  then have ix: "cell_index c (nat n) (nat c) = nat n * (nat c + 1) + nat c"
    and lt0: "cell_index c (nat n) (nat c) < length vals"
    and tv: "table_cell vals c (nat n) (nat c) = tab objs (nat n) (nat c)"
    by blast+
  define m where "m = nat n * (nat c + 1) + nat c"
  have lt: "m < length vals"
    using lt0 by (simp only: ix m_def)
  have "tab objs (nat n) (nat c) = best_value objs (nat n) (int (nat c))"
    by (rule tab_best_value [OF assms(1,2) le_refl assms(3) le_refl le_refl])
  then have "vals ! m = best_value objs (nat n) c"
    using a(2) tv by (simp add: table_cell_def ix m_def)
  then have "load_int vals (int m) = Some (best_value objs (nat n) c)"
    using lt by (simp add: load_int_def load_def)
  then have "load_int vals (int_wrap (int_wrap (n * int_wrap (c + 1)) + c))
      = Some (best_value objs (nat n) c)"
    by (simp only: final_index [OF a] m_def)
  with tbl show ?thesis by blast
qed

theorem dp_table_optimal_witness:
  "valid_call 3 1 [1000000000, 1, 0, 1000000000, 1, 0, 1000000000, 1, 0] \<and>
   nonneg_items 3 [1000000000, 1, 0, 1000000000, 1, 0, 1000000000, 1, 0] \<and>
   best_value [1000000000, 1, 0, 1000000000, 1, 0, 1000000000, 1, 0] (nat 3) 1 \<le> INT_MAX \<and>
   INT_MAX < total_value [1000000000, 1, 0, 1000000000, 1, 0, 1000000000, 1, 0] {..<nat 3} \<and>
   dp_table 3 1 [1000000000, 1, 0, 1000000000, 1, 0, 1000000000, 1, 0]
     = Some [0, 0, 0, 1000000000, 0, 1000000000, 0, 1000000000] \<and>
   load_int [0, 0, 0, 1000000000, 0, 1000000000, 0, 1000000000]
       (int_wrap (int_wrap (3 * int_wrap (1 + 1)) + 1))
     = Some (best_value [1000000000, 1, 0, 1000000000, 1, 0, 1000000000, 1, 0] (nat 3) 1) \<and>
   best_value [1000000000, 1, 0, 1000000000, 1, 0, 1000000000, 1, 0] (nat 3) 1 = 1000000000"
proof -
  define G :: "int list" where "G = [1000000000, 1, 0, 1000000000, 1, 0, 1000000000, 1, 0]"
  have h1: "valid_call 3 1 G"
    by (simp add: G_def valid_call_def INT_MAX_def INT_MIN_def)
  have h2: "nonneg_items 3 G"
    by (simp add: G_def nonneg_items_def item_eval less_Suc_eq numeral_3_eq_3)
  have "best_value G (nat 3) (int 1) = opt G (nat 3) 1"
    by (rule opt_best_value [OF h2]) simp
  also have "\<dots> = 1000000000"
    by (simp add: G_def item_eval numeral_3_eq_3)
  finally have b: "best_value G (nat 3) 1 = 1000000000"
    by simp
  then have h3: "best_value G (nat 3) 1 \<le> INT_MAX"
    by (simp add: INT_MAX_def)
  have t: "INT_MAX < total_value G {..<nat 3}"
    by (simp add: G_def total_value_def item_eval INT_MAX_def numeral_3_eq_3)
  have e: "dp_table 3 1 G = Some [0, 0, 0, 1000000000, 0, 1000000000, 0, 1000000000]"
    by (simp add: G_def dp_eval)
  from dp_table_optimal [OF h1 h2 h3] obtain vals where
    "dp_table 3 1 G = Some vals"
    "load_int vals (int_wrap (int_wrap (3 * int_wrap (1 + 1)) + 1))
      = Some (best_value G (nat 3) 1)"
    by blast
  with e have l: "load_int [0, 0, 0, 1000000000, 0, 1000000000, 0, 1000000000]
       (int_wrap (int_wrap (3 * int_wrap (1 + 1)) + 1)) = Some (best_value G (nat 3) 1)"
    by simp
  show ?thesis
    using h1 h2 h3 t e l b unfolding G_def by (intro conjI)
qed

theorem dp_table_optimal_counterexample:
  "valid_call 2 0 [1073741824, 0, 0, 1073741824, 0, 0] \<and>
   nonneg_items 2 [1073741824, 0, 0, 1073741824, 0, 0] \<and>
   dp_table 2 0 [1073741824, 0, 0, 1073741824, 0, 0] = Some [0, 1073741824, 1073741824] \<and>
   load_int [0, 1073741824, 1073741824] (int_wrap (int_wrap (2 * int_wrap (0 + 1)) + 0))
     = Some 1073741824 \<and>
   best_value [1073741824, 0, 0, 1073741824, 0, 0] (nat 2) 0 = 2147483648"
proof -
  have h1: "valid_call 2 0 [1073741824, 0, 0, 1073741824, 0, 0]"
    by (simp add: valid_call_def INT_MAX_def INT_MIN_def)
  have h2: "nonneg_items 2 [1073741824, 0, 0, 1073741824, 0, 0]"
    by (simp add: nonneg_items_def item_value_def item_weight_def less_Suc_eq numeral_2_eq_2)
  have h3: "dp_table 2 0 [1073741824, 0, 0, 1073741824, 0, 0] = Some [0, 1073741824, 1073741824]"
    by (simp add: dp_eval)
  have h4: "load_int [0, 1073741824, 1073741824] (int_wrap (int_wrap (2 * int_wrap (0 + 1)) + 0))
     = Some 1073741824"
    by (simp add: c_eval)
  have "total_weight [1073741824, 0, 0, 1073741824, 0, 0] {..<nat 2} \<le> 0"
    by (simp add: total_weight_def item_weight_def numeral_2_eq_2)
  from best_value_all [OF h2 this]
  have h5: "best_value [1073741824, 0, 0, 1073741824, 0, 0] (nat 2) 0 = 2147483648"
    by (simp add: total_value_def item_value_def numeral_2_eq_2)
  show ?thesis
    using h1 h2 h3 h4 h5 by (simp only:) 
qed


section \<open>The recurrence and monotonicity\<close>

lemma tab_sum_fits:
  assumes "valid_call n c objs" "nonneg_items n objs"
    and fit: "best_value objs (nat n) c \<le> INT_MAX"
    and q: "q < nat n" and k: "k \<le> nat c" and w: "item_weight objs q \<le> int k"
  shows "tab objs q (k - nat (item_weight objs q)) + item_value objs q \<le> INT_MAX"
proof -
  have c: "0 \<le> c"
    using assms(1) by (simp add: valid_call_def)
  have "best_value objs (nat n) (int (nat c)) = opt objs (nat n) (nat c)"
    by (rule opt_best_value [OF assms(2)]) simp
  then have o: "opt objs (nat n) (nat c) \<le> INT_MAX"
    using fit c by simp
  have "k - nat (item_weight objs q) \<le> nat c"
    using k by simp
  from tab_opt [OF assms(1,2) le_refl o _ this, of q] q
  have "tab objs q (k - nat (item_weight objs q)) = opt objs q (k - nat (item_weight objs q))"
    by simp
  moreover have "opt objs q (k - nat (item_weight objs q)) + item_value objs q
      \<le> opt objs (Suc q) k"
    using w by simp
  moreover have "opt objs (Suc q) k \<le> opt objs (nat n) (nat c)"
    using q k by (intro opt_mono [OF assms(2)]) simp_all
  ultimately show ?thesis
    using o by simp
qed

lemma tab_mono_capacity:
  assumes "valid_call n c objs" "nonneg_items n objs"
    and p: "p \<le> nat n" and fit: "best_value objs p c \<le> INT_MAX" and k: "k < nat c"
  shows "tab objs p k \<le> tab objs p (Suc k)"
proof -
  have c: "0 \<le> c"
    using assms(1) by (simp add: valid_call_def)
  have "best_value objs p (int (nat c)) = opt objs p (nat c)"
    using assms(2) p by (rule opt_best_value)
  then have o: "opt objs p (nat c) \<le> INT_MAX"
    using fit c by simp
  have "tab objs p k = opt objs p k" "tab objs p (Suc k) = opt objs p (Suc k)"
    using k by (simp_all add: tab_opt [OF assms(1,2) p o])
  moreover have "opt objs p k \<le> opt objs p (Suc k)"
    using p by (intro opt_mono [OF assms(2)]) simp_all
  ultimately show ?thesis
    by simp
qed

text \<open>
  C2. For a valid call with non-negative values and weights, the table of \<open>dp_knapsack\<close>
  has \<open>table[0][k] = 0\<close>, \<open>table[p][k] = table[p-1][k]\<close> when the weight of the \<open>p\<close>-th
  item exceeds \<open>k\<close>, and otherwise
  \<open>table[p][k] = max(table[p-1][k], table[p-1][k - weight] + value)\<close> whenever that sum is
  at most \<open>INT_MAX\<close>; and the sum is at most \<open>INT_MAX\<close> at every cell when the optimum of
  the whole instance is.
\<close>

theorem dp_table_recurrence:
  assumes "valid_call n c objs" and "nonneg_items n objs"
  shows "\<exists>vals. dp_table n c objs = Some vals \<and>
    (\<forall>k \<le> nat c. table_cell vals c 0 k = 0) \<and>
    (\<forall>p k. 1 \<le> p \<and> p \<le> nat n \<and> k \<le> nat c \<longrightarrow>
       (int k < item_weight objs (p - 1) \<longrightarrow>
          table_cell vals c p k = table_cell vals c (p - 1) k) \<and>
       (item_weight objs (p - 1) \<le> int k \<and>
        table_cell vals c (p - 1) (k - nat (item_weight objs (p - 1))) + item_value objs (p - 1)
          \<le> INT_MAX \<longrightarrow>
          table_cell vals c p k =
            max (table_cell vals c (p - 1) k)
              (table_cell vals c (p - 1) (k - nat (item_weight objs (p - 1)))
                + item_value objs (p - 1)))) \<and>
    (best_value objs (nat n) c \<le> INT_MAX \<longrightarrow>
       (\<forall>p k. 1 \<le> p \<and> p \<le> nat n \<and> k \<le> nat c \<and> item_weight objs (p - 1) \<le> int k \<longrightarrow>
          table_cell vals c (p - 1) (k - nat (item_weight objs (p - 1)))
            + item_value objs (p - 1) \<le> INT_MAX))"
proof -
  from dp_table_cells [OF assms(1)] obtain vals where
    tbl: "dp_table n c objs = Some vals" and
    cells: "\<And>p k. p \<le> nat n \<Longrightarrow> k \<le> nat c \<Longrightarrow> table_cell vals c p k = tab objs p k"
    by blast
  have row0: "table_cell vals c 0 k = 0" if "k \<le> nat c" for k
    using cells [of 0 k] that by simp
  have step: "(int k < item_weight objs (p - 1) \<longrightarrow>
          table_cell vals c p k = table_cell vals c (p - 1) k) \<and>
       (item_weight objs (p - 1) \<le> int k \<and>
        table_cell vals c (p - 1) (k - nat (item_weight objs (p - 1))) + item_value objs (p - 1)
          \<le> INT_MAX \<longrightarrow>
          table_cell vals c p k =
            max (table_cell vals c (p - 1) k)
              (table_cell vals c (p - 1) (k - nat (item_weight objs (p - 1)))
                + item_value objs (p - 1)))"
    if pk: "1 \<le> p" "p \<le> nat n" "k \<le> nat c" for p k
  proof -
    obtain q where q: "p = Suc q" "q < nat n"
      using pk(1,2) by (cases p) simp_all
    have w: "0 \<le> item_weight objs q"
      using assms(2) q(2) by (simp add: nonneg_items_def)
    note r = item_in_range [OF assms(1) q(2)]
    note sw = size_of_weight [OF w r(4)]
    have c1: "table_cell vals c (Suc q) k = tab objs (Suc q) k"
      using cells [of p k] pk q by (simp del: tab.simps)
    have c2: "table_cell vals c q j = tab objs q j" if "j \<le> k" for j
      using cells [of q j] pk q that by simp
    have "tab objs (Suc q) k = tab objs q k" if "int k < item_weight objs q"
      using that w by (simp add: sw zless_nat_eq_int_zless)
    moreover have "tab objs (Suc q) k = max (tab objs q k)
        (tab objs q (k - nat (item_weight objs q)) + item_value objs q)"
      if "item_weight objs q \<le> int k"
        "tab objs q (k - nat (item_weight objs q)) + item_value objs q \<le> INT_MAX"
      using tab_rec_exact [OF assms(1) q(2) w that(2)] that(1) by simp
    ultimately show ?thesis
      by (simp only: q(1) diff_Suc_1 c1 c2 [OF le_refl] c2 [OF diff_le_self]) blast
  qed
  have fits: "table_cell vals c (p - 1) (k - nat (item_weight objs (p - 1)))
            + item_value objs (p - 1) \<le> INT_MAX"
    if fit: "best_value objs (nat n) c \<le> INT_MAX"
      and pk: "1 \<le> p" "p \<le> nat n" "k \<le> nat c" "item_weight objs (p - 1) \<le> int k" for p k
  proof -
    obtain q where q: "p = Suc q" "q < nat n"
      using pk(1,2) by (cases p) simp_all
    have "table_cell vals c q (k - nat (item_weight objs q))
        = tab objs q (k - nat (item_weight objs q))"
      using q(2) pk(3) by (intro cells) simp_all
    moreover have "tab objs q (k - nat (item_weight objs q)) + item_value objs q \<le> INT_MAX"
      using pk(4) by (intro tab_sum_fits [OF assms fit q(2) pk(3)]) (simp add: q(1))
    ultimately show ?thesis
      by (simp add: q(1))
  qed
  show ?thesis
    using tbl row0 step fits by blast
qed

theorem dp_table_recurrence_witness:
  "valid_call 3 5 [60, 1, 0, 100, 2, 0, 120, 3, 0] \<and> nonneg_items 3 [60, 1, 0, 100, 2, 0, 120, 3, 0] \<and>
   best_value [60, 1, 0, 100, 2, 0, 120, 3, 0] (nat 3) 5 \<le> INT_MAX \<and>
   dp_table 3 5 [60, 1, 0, 100, 2, 0, 120, 3, 0] = Some
     [0, 0, 0, 0, 0, 0, 0, 60, 60, 60, 60, 60, 0, 60, 100, 160, 160, 160, 0, 60, 100, 160, 180, 220] \<and>
   table_cell [0, 0, 0, 0, 0, 0, 0, 60, 60, 60, 60, 60, 0, 60, 100, 160, 160, 160, 0, 60, 100, 160, 180, 220] 5 0 4 = 0 \<and>
   int 1 < item_weight [60, 1, 0, 100, 2, 0, 120, 3, 0] (2 - 1) \<and>
   table_cell [0, 0, 0, 0, 0, 0, 0, 60, 60, 60, 60, 60, 0, 60, 100, 160, 160, 160, 0, 60, 100, 160, 180, 220] 5 2 1
     = table_cell [0, 0, 0, 0, 0, 0, 0, 60, 60, 60, 60, 60, 0, 60, 100, 160, 160, 160, 0, 60, 100, 160, 180, 220] 5 (2 - 1) 1 \<and>
   item_weight [60, 1, 0, 100, 2, 0, 120, 3, 0] (3 - 1) \<le> int 5 \<and>
   table_cell [0, 0, 0, 0, 0, 0, 0, 60, 60, 60, 60, 60, 0, 60, 100, 160, 160, 160, 0, 60, 100, 160, 180, 220] 5 (3 - 1)
       (5 - nat (item_weight [60, 1, 0, 100, 2, 0, 120, 3, 0] (3 - 1))) + item_value [60, 1, 0, 100, 2, 0, 120, 3, 0] (3 - 1) \<le> INT_MAX \<and>
   table_cell [0, 0, 0, 0, 0, 0, 0, 60, 60, 60, 60, 60, 0, 60, 100, 160, 160, 160, 0, 60, 100, 160, 180, 220] 5 3 5 =
     max (table_cell [0, 0, 0, 0, 0, 0, 0, 60, 60, 60, 60, 60, 0, 60, 100, 160, 160, 160, 0, 60, 100, 160, 180, 220] 5 (3 - 1) 5)
       (table_cell [0, 0, 0, 0, 0, 0, 0, 60, 60, 60, 60, 60, 0, 60, 100, 160, 160, 160, 0, 60, 100, 160, 180, 220] 5 (3 - 1)
          (5 - nat (item_weight [60, 1, 0, 100, 2, 0, 120, 3, 0] (3 - 1))) + item_value [60, 1, 0, 100, 2, 0, 120, 3, 0] (3 - 1))"
proof -
  define X :: "int list" where "X = [60, 1, 0, 100, 2, 0, 120, 3, 0]"
  define T :: "int list" where "T = [0, 0, 0, 0, 0, 0, 0, 60, 60, 60, 60, 60, 0, 60, 100, 160, 160, 160, 0, 60, 100, 160, 180, 220]"
  have h1: "valid_call 3 5 X"
    by (simp add: X_def valid_call_def INT_MAX_def INT_MIN_def)
  have h2: "nonneg_items 3 X"
    by (simp add: X_def nonneg_items_def item_eval less_Suc_eq numeral_3_eq_3)
  have "best_value X (nat 3) (int 5) = opt X (nat 3) 5"
    by (rule opt_best_value [OF h2]) simp
  also have "\<dots> = 220"
    by (simp add: X_def item_eval numeral_3_eq_3)
  finally have h3: "best_value X (nat 3) 5 \<le> INT_MAX"
    by (simp add: INT_MAX_def)
  have h4: "dp_table 3 5 X = Some T"
    by (simp add: X_def T_def dp_eval)
  from dp_table_recurrence [OF h1 h2] obtain vals where
    v: "dp_table 3 5 X = Some vals" and
    row0: "\<forall>k \<le> nat 5. table_cell vals 5 0 k = 0" and
    step: "\<forall>p k. 1 \<le> p \<and> p \<le> nat 3 \<and> k \<le> nat 5 \<longrightarrow>
       (int k < item_weight X (p - 1) \<longrightarrow>
          table_cell vals 5 p k = table_cell vals 5 (p - 1) k) \<and>
       (item_weight X (p - 1) \<le> int k \<and>
        table_cell vals 5 (p - 1) (k - nat (item_weight X (p - 1)))
          + item_value X (p - 1) \<le> INT_MAX \<longrightarrow>
          table_cell vals 5 p k =
            max (table_cell vals 5 (p - 1) k)
              (table_cell vals 5 (p - 1) (k - nat (item_weight X (p - 1)))
                + item_value X (p - 1)))" and
    fits: "best_value X (nat 3) 5 \<le> INT_MAX \<longrightarrow>
       (\<forall>p k. 1 \<le> p \<and> p \<le> nat 3 \<and> k \<le> nat 5 \<and> item_weight X (p - 1) \<le> int k \<longrightarrow>
          table_cell vals 5 (p - 1) (k - nat (item_weight X (p - 1)))
            + item_value X (p - 1) \<le> INT_MAX)"
    by blast
  have vals: "vals = T"
    using v h4 by simp
  have r21: "1 \<le> (2::nat) \<and> 2 \<le> nat 3 \<and> (1::nat) \<le> nat 5"
    and r35: "1 \<le> (3::nat) \<and> 3 \<le> nat 3 \<and> (5::nat) \<le> nat 5"
    by simp_all
  have g1: "table_cell T 5 0 4 = 0"
    using row0 [rule_format, of 4] by (simp add: vals)
  have a2: "int 1 < item_weight X (2 - 1)"
    by (simp add: X_def item_eval)
  have g2: "table_cell T 5 2 1 = table_cell T 5 (2 - 1) 1"
    by (rule step [unfolded vals, rule_format, OF r21, THEN conjunct1, rule_format, OF a2])
  have a3: "item_weight X (3 - 1) \<le> int 5"
    by (simp add: X_def item_eval)
  have a4: "table_cell T 5 (3 - 1) (5 - nat (item_weight X (3 - 1))) + item_value X (3 - 1)
      \<le> INT_MAX"
    using fits [unfolded vals, rule_format, OF h3, of 3 5] r35 a3 by blast
  have g3: "table_cell T 5 3 5 =
     max (table_cell T 5 (3 - 1) 5)
       (table_cell T 5 (3 - 1) (5 - nat (item_weight X (3 - 1))) + item_value X (3 - 1))"
    using step [unfolded vals, rule_format, OF r35, THEN conjunct2, rule_format] a3 a4
    by blast
  show ?thesis
    using h1 h2 h3 h4 g1 a2 g2 a3 a4 g3 unfolding X_def T_def by (intro conjI)
qed

theorem dp_table_recurrence_counterexample:
  "valid_call 2 0 [1073741824, 0, 0, 1073741824, 0, 0] \<and> nonneg_items 2 [1073741824, 0, 0, 1073741824, 0, 0] \<and>
   dp_table 2 0 [1073741824, 0, 0, 1073741824, 0, 0] = Some [0, 1073741824, 1073741824] \<and>
   item_weight [1073741824, 0, 0, 1073741824, 0, 0] (2 - 1) \<le> int 0 \<and>
   table_cell [0, 1073741824, 1073741824] 0 2 0 = 1073741824 \<and>
   max (table_cell [0, 1073741824, 1073741824] 0 (2 - 1) 0)
     (table_cell [0, 1073741824, 1073741824] 0 (2 - 1) (0 - nat (item_weight [1073741824, 0, 0, 1073741824, 0, 0] (2 - 1))) + item_value [1073741824, 0, 0, 1073741824, 0, 0] (2 - 1))
     = 2147483648"
  by (simp add: valid_call_def nonneg_items_def INT_MAX_def INT_MIN_def item_eval dp_eval
      less_Suc_eq numeral_2_eq_2)

text \<open>
  C4. For a valid call with non-negative values and weights, more candidate items never
  decrease a cell: \<open>table[p][k] \<le> table[p+1][k]\<close>; and more capacity never decreases a
  cell, \<open>table[p][k] \<le> table[p][k+1]\<close>, in every row \<open>p\<close> for which the optimum of the
  first \<open>p\<close> items at capacity \<open>c\<close> is at most \<open>INT_MAX\<close> (so in every row when the
  optimum of the whole instance is).
\<close>

theorem dp_table_monotone:
  assumes "valid_call n c objs" and "nonneg_items n objs"
  shows "\<exists>vals. dp_table n c objs = Some vals \<and>
    (\<forall>p k. p < nat n \<and> k \<le> nat c \<longrightarrow> table_cell vals c p k \<le> table_cell vals c (p + 1) k) \<and>
    (\<forall>p k. p \<le> nat n \<and> k < nat c \<and> best_value objs p c \<le> INT_MAX \<longrightarrow>
       table_cell vals c p k \<le> table_cell vals c p (k + 1)) \<and>
    (\<forall>p. p \<le> nat n \<and> best_value objs (nat n) c \<le> INT_MAX \<longrightarrow>
       best_value objs p c \<le> INT_MAX)"
proof -
  have c: "0 \<le> c"
    using assms(1) by (simp add: valid_call_def)
  from dp_table_cells [OF assms(1)] obtain vals where
    tbl: "dp_table n c objs = Some vals" and
    cells: "\<And>p k. p \<le> nat n \<Longrightarrow> k \<le> nat c \<Longrightarrow> table_cell vals c p k = tab objs p k"
    by blast
  have rows: "table_cell vals c p k \<le> table_cell vals c (p + 1) k"
    if "p < nat n" "k \<le> nat c" for p k
    using cells [of p k] cells [of "Suc p" k] that tab_mono_items [of objs p k]
    by (simp del: tab.simps)
  have cols: "table_cell vals c p k \<le> table_cell vals c p (k + 1)"
    if "p \<le> nat n" "k < nat c" "best_value objs p c \<le> INT_MAX" for p k
    using cells [of p k] cells [of p "Suc k"] that
      tab_mono_capacity [OF assms that(1,3,2)]
    by simp
  have all: "best_value objs p c \<le> INT_MAX"
    if "p \<le> nat n" "best_value objs (nat n) c \<le> INT_MAX" for p
  proof -
    have "best_value objs p (int (nat c)) = opt objs p (nat c)"
      using assms(2) that(1) by (rule opt_best_value)
    moreover have "best_value objs (nat n) (int (nat c)) = opt objs (nat n) (nat c)"
      by (rule opt_best_value [OF assms(2)]) simp
    moreover have "opt objs p (nat c) \<le> opt objs (nat n) (nat c)"
      using that(1) by (intro opt_mono [OF assms(2)]) simp_all
    ultimately show ?thesis
      using that(2) c by simp
  qed
  show ?thesis
    using tbl rows cols all by blast
qed

theorem dp_table_monotone_witness:
  "valid_call 3 5 [60, 1, 0, 100, 2, 0, 120, 3, 0] \<and> nonneg_items 3 [60, 1, 0, 100, 2, 0, 120, 3, 0] \<and>
   best_value [60, 1, 0, 100, 2, 0, 120, 3, 0] (nat 3) 5 \<le> INT_MAX \<and>
   best_value [60, 1, 0, 100, 2, 0, 120, 3, 0] 2 5 \<le> INT_MAX \<and>
   dp_table 3 5 [60, 1, 0, 100, 2, 0, 120, 3, 0] = Some
     [0, 0, 0, 0, 0, 0, 0, 60, 60, 60, 60, 60, 0, 60, 100, 160, 160, 160, 0, 60, 100, 160, 180, 220] \<and>
   table_cell [0, 0, 0, 0, 0, 0, 0, 60, 60, 60, 60, 60, 0, 60, 100, 160, 160, 160, 0, 60, 100, 160, 180, 220] 5 1 1
     \<le> table_cell [0, 0, 0, 0, 0, 0, 0, 60, 60, 60, 60, 60, 0, 60, 100, 160, 160, 160, 0, 60, 100, 160, 180, 220] 5 (1 + 1) 1 \<and>
   table_cell [0, 0, 0, 0, 0, 0, 0, 60, 60, 60, 60, 60, 0, 60, 100, 160, 160, 160, 0, 60, 100, 160, 180, 220] 5 2 3
     \<le> table_cell [0, 0, 0, 0, 0, 0, 0, 60, 60, 60, 60, 60, 0, 60, 100, 160, 160, 160, 0, 60, 100, 160, 180, 220] 5 2 (3 + 1) \<and>
   valid_call 2 1 [1073741824, 1, 0, 2147483647, 0, 0] \<and> nonneg_items 2 [1073741824, 1, 0, 2147483647, 0, 0] \<and>
   best_value [1073741824, 1, 0, 2147483647, 0, 0] 1 1 \<le> INT_MAX \<and>
   dp_table 2 1 [1073741824, 1, 0, 2147483647, 0, 0] = Some [0, 0, 0, 1073741824, 2147483647, 1073741824] \<and>
   table_cell [0, 0, 0, 1073741824, 2147483647, 1073741824] 1 1 0 \<le> table_cell [0, 0, 0, 1073741824, 2147483647, 1073741824] 1 1 (0 + 1)"
proof -
  define X :: "int list" where "X = [60, 1, 0, 100, 2, 0, 120, 3, 0]"
  define T :: "int list" where "T = [0, 0, 0, 0, 0, 0, 0, 60, 60, 60, 60, 60, 0, 60, 100, 160, 160, 160, 0, 60, 100, 160, 180, 220]"
  have x1: "valid_call 3 5 X"
    by (simp add: X_def valid_call_def INT_MAX_def INT_MIN_def)
  have x2: "nonneg_items 3 X"
    by (simp add: X_def nonneg_items_def item_eval less_Suc_eq numeral_3_eq_3)
  have "best_value X (nat 3) (int 5) = opt X (nat 3) 5"
    by (rule opt_best_value [OF x2]) simp
  also have "\<dots> = 220"
    by (simp add: X_def item_eval numeral_3_eq_3)
  finally have x3: "best_value X (nat 3) 5 \<le> INT_MAX"
    by (simp add: INT_MAX_def)
  have x4: "dp_table 3 5 X = Some T"
    by (simp add: X_def T_def dp_eval)
  from dp_table_monotone [OF x1 x2] obtain vals where
    v: "dp_table 3 5 X = Some vals" and
    rows: "\<forall>p k. p < nat 3 \<and> k \<le> nat 5 \<longrightarrow>
      table_cell vals 5 p k \<le> table_cell vals 5 (p + 1) k" and
    cols: "\<forall>p k. p \<le> nat 3 \<and> k < nat 5 \<and> best_value X p 5 \<le> INT_MAX \<longrightarrow>
       table_cell vals 5 p k \<le> table_cell vals 5 p (k + 1)" and
    all: "\<forall>p. p \<le> nat 3 \<and> best_value X (nat 3) 5 \<le> INT_MAX \<longrightarrow>
       best_value X p 5 \<le> INT_MAX"
    by blast
  have vals: "vals = T"
    using v x4 by simp
  have r1: "(1::nat) < nat 3 \<and> (1::nat) \<le> nat 5"
    and r2: "(2::nat) \<le> nat 3" "(3::nat) < nat 5"
    by simp_all
  have x5: "best_value X 2 5 \<le> INT_MAX"
    using all [rule_format, of 2] r2(1) x3 by blast
  have g1: "table_cell T 5 1 1 \<le> table_cell T 5 (1 + 1) 1"
    by (rule rows [unfolded vals, rule_format, OF r1])
  have g2: "table_cell T 5 2 3 \<le> table_cell T 5 2 (3 + 1)"
    using cols [unfolded vals, rule_format, of 2 3] r2 x5 by blast
  define M :: "int list" where "M = [1073741824, 1, 0, 2147483647, 0, 0]"
  define U :: "int list" where "U = [0, 0, 0, 1073741824, 2147483647, 1073741824]"
  have m1: "valid_call 2 1 M"
    by (simp add: M_def valid_call_def INT_MAX_def INT_MIN_def)
  have m2: "nonneg_items 2 M"
    by (simp add: M_def nonneg_items_def item_eval less_Suc_eq numeral_2_eq_2)
  have "best_value M 1 (int 1) = opt M 1 1"
    by (rule opt_best_value [OF m2]) simp
  also have "\<dots> = 1073741824"
    by (simp add: M_def item_eval)
  finally have m3: "best_value M 1 1 \<le> INT_MAX"
    by (simp add: INT_MAX_def)
  have m4: "dp_table 2 1 M = Some U"
    by (simp add: M_def U_def dp_eval)
  from dp_table_monotone [OF m1 m2] obtain vals' where
    v': "dp_table 2 1 M = Some vals'" and
    cols': "\<forall>p k. p \<le> nat 2 \<and> k < nat 1 \<and> best_value M p 1 \<le> INT_MAX \<longrightarrow>
       table_cell vals' 1 p k \<le> table_cell vals' 1 p (k + 1)"
    by blast
  have vals': "vals' = U"
    using v' m4 by simp
  have r3: "(1::nat) \<le> nat 2 \<and> (0::nat) < nat 1"
    by simp
  have g3: "table_cell U 1 1 0 \<le> table_cell U 1 1 (0 + 1)"
    using cols' [unfolded vals', rule_format, of 1 0] r3 m3 by blast
  show ?thesis
    using x1 x2 x3 x5 x4 g1 g2 m1 m2 m3 m4 g3 unfolding X_def T_def M_def U_def
    by (intro conjI)
qed

theorem dp_table_monotone_counterexample:
  "valid_call 2 1 [1073741824, 1, 0, 2147483647, 0, 0] \<and> nonneg_items 2 [1073741824, 1, 0, 2147483647, 0, 0] \<and>
   dp_table 2 1 [1073741824, 1, 0, 2147483647, 0, 0] = Some [0, 0, 0, 1073741824, 2147483647, 1073741824] \<and>
   table_cell [0, 0, 0, 1073741824, 2147483647, 1073741824] 1 2 0 = 2147483647 \<and>
   table_cell [0, 0, 0, 1073741824, 2147483647, 1073741824] 1 2 (0 + 1) = 1073741824"
  by (simp add: valid_call_def nonneg_items_def INT_MAX_def INT_MIN_def item_eval dp_eval
      less_Suc_eq numeral_2_eq_2)

section \<open>Capacity zero and the empty item list\<close>

lemma size_of_int_pos:
  assumes "INT_MIN \<le> w" "w \<le> INT_MAX" "w \<noteq> 0"
  shows "0 < size_of_int w"
proof (cases "0 < w")
  case True
  then show ?thesis
    using assms(2) by (simp add: size_of_int_def INT_MAX_def)
next
  case False
  then have "w < 0" using assms(3) by simp
  then have "0 \<le> w + 18446744073709551616" "w + 18446744073709551616 < 18446744073709551616"
    using assms(1) by (simp_all add: INT_MIN_def)
  then have "(w + 18446744073709551616) mod 18446744073709551616 = w + 18446744073709551616"
    by (rule mod_pos_pos_trivial)
  then have "w mod 18446744073709551616 = w + 18446744073709551616"
    by (simp only: mod_add_self2)
  then show ?thesis
    using assms(1) by (simp add: size_of_int_def INT_MIN_def)
qed

lemma tab_capacity_zero:
  assumes "valid_call n c objs"
    and "\<forall>j < nat n. \<not> (item_weight objs j = 0 \<and> 0 < item_value objs j)"
  shows "p \<le> nat n \<Longrightarrow> tab objs p 0 = 0"
proof (induction p)
  case 0
  show ?case by simp
next
  case (Suc p)
  then have p: "p < nat n" and IH: "tab objs p 0 = 0" by simp_all
  note r = item_in_range [OF assms(1) p]
  show ?case
  proof (cases "item_weight objs p = 0")
    case False
    from size_of_int_pos [OF r(3,4) False] IH show ?thesis by simp
  next
    case True
    with assms(2) p have "item_value objs p \<le> 0" by auto
    moreover have "int_wrap (item_value objs p) = item_value objs p"
      using r(1,2) by (rule int_wrap_id)
    ultimately show ?thesis
      using True IH by (simp add: size_of_int_def)
  qed
qed

lemma map_zero: "(\<And>t. t < m \<Longrightarrow> f t = (0::int)) \<Longrightarrow> map f [0..<m] = replicate m 0"
  by (rule nth_equalityI) simp_all

lemma dp_table_no_items:
  assumes "valid_call 0 c objs"
  shows "dp_table 0 c objs = Some (replicate (nat c + 1) 0)"
proof -
  have a: "(0::int) \<le> 0" "0 \<le> c" "(0 + 1) * (c + 1) \<le> INT_MAX" "nat 0 * 3 \<le> length objs"
    using assms by (simp_all add: valid_call_def)
  have "entry objs (nat c) t = 0" if "t < nat c + 1" for t
    using that by (simp add: entry_def)
  then have "map (entry objs (nat c)) [0..<nat c + 1] = replicate (nat c + 1) 0"
    by (rule map_zero)
  then show ?thesis
    using dp_table_filled [OF a] by simp
qed

lemma dp_knapsack_no_items:
  assumes "valid_call 0 c objs"
  shows "dp_knapsack 0 c objs = Some (''0 1'' @ [CHR 0x0A, CHR 0x0A])"
proof -
  have a: "(0::int) \<le> 0" "0 \<le> c" "(0 + 1) * (c + 1) \<le> INT_MAX"
    using assms by (simp_all add: valid_call_def)
  have bt: "dp_backtrace 0 c objs vals = Some \<lparr>bt_k = c, bt_objs = objs, bt_vals = vals\<rparr>" for vals
    by (simp add: dp_backtrace_def size_of_int_def bt_loop.simps)
  have ld: "load_int (replicate (nat c + 1) 0) (int_wrap (int_wrap (0 * int_wrap (c + 1)) + c))
      = Some 0"
  proof -
    have "replicate (nat c + 1) (0::int) ! nat c = 0"
      by (rule nth_replicate) simp
    then have "load_int (replicate (nat c + 1) 0) (int (nat c)) = Some 0"
      by (simp only: load_int_def load_def length_replicate nat_int) simp
    then show ?thesis
      by (simp only: final_index [OF a]) simp
  qed
  have pr: "dp_print 0 0 1 objs = Some (''0 1'' @ [CHR 0x0A, CHR 0x0A])"
    by (simp add: dp_print_def print_flags.simps size_of_int_def show_int_def digits.simps)
  show ?thesis
    by (simp only: dp_knapsack_def dp_table_no_items [OF assms] bt ld pr
        Option.bind.bind_lunit bt_state.select_convs)
qed

text \<open>
  C7. When the capacity is 0 and no item has weight 0 together with a positive value,
  every entry of the table is zero; and with no items the table is all zeros and the
  report is the optimum 0 and an empty line of flags.
\<close>

theorem dp_table_zero_capacity:
  "(valid_call n 0 objs \<and> (\<forall>j < nat n. \<not> (item_weight objs j = 0 \<and> 0 < item_value objs j))
      \<longrightarrow> dp_table n 0 objs = Some (replicate (nat n + 1) 0)) \<and>
   (valid_call 0 c objs' \<longrightarrow>
      dp_table 0 c objs' = Some (replicate (nat c + 1) 0) \<and>
      dp_knapsack 0 c objs' = Some (''0 1'' @ [CHR 0x0A, CHR 0x0A]))"
proof (intro conjI impI)
  assume h: "valid_call n 0 objs \<and>
    (\<forall>j < nat n. \<not> (item_weight objs j = 0 \<and> 0 < item_value objs j))"
  then have a: "0 \<le> n" "(0::int) \<le> 0" "(n + 1) * (0 + 1) \<le> INT_MAX" "nat n * 3 \<le> length objs"
    by (simp_all add: valid_call_def)
  have "entry objs (nat 0) t = 0" if "t < nat n + 1" for t
    using that tab_capacity_zero [of n 0 objs t] h by (simp add: entry_def)
  then have "map (entry objs (nat 0)) [0..<nat n + 1] = replicate (nat n + 1) 0"
    by (rule map_zero)
  then show "dp_table n 0 objs = Some (replicate (nat n + 1) 0)"
    using dp_table_filled [OF a] by simp
next
  assume "valid_call 0 c objs'"
  then show "dp_table 0 c objs' = Some (replicate (nat c + 1) 0)"
    by (rule dp_table_no_items)
next
  assume "valid_call 0 c objs'"
  then show "dp_knapsack 0 c objs' = Some (''0 1'' @ [CHR 0x0A, CHR 0x0A])"
    by (rule dp_knapsack_no_items)
qed

theorem dp_table_zero_capacity_witness:
  "valid_call 1 0 [10, 5, 0] \<and>
   \<not> (item_weight [10, 5, 0] 0 = 0 \<and> 0 < item_value [10, 5, 0] 0) \<and>
   dp_table 1 0 [10, 5, 0] = Some (replicate (nat 1 + 1) 0) \<and>
   valid_call 0 10 [] \<and>
   dp_table 0 10 [] = Some (replicate (nat 10 + 1) 0) \<and>
   dp_knapsack 0 10 [] = Some (''0 1'' @ [CHR 0x0A, CHR 0x0A])"
proof -
  have h1: "valid_call 1 0 [10, 5, 0]"
    by (simp add: valid_call_def INT_MAX_def INT_MIN_def)
  have h2: "\<forall>j < nat 1. \<not> (item_weight [10, 5, 0] j = 0 \<and> 0 < item_value [10, 5, 0] j)"
    by (simp add: item_eval)
  have h3: "valid_call 0 10 []"
    by (simp add: valid_call_def INT_MAX_def INT_MIN_def)
  have h2': "\<not> (item_weight [10, 5, 0] 0 = 0 \<and> 0 < item_value [10, 5, 0] 0)"
    by (simp add: item_eval)
  show ?thesis
    using dp_table_zero_capacity [of 1 "[10, 5, 0]" 10 "[]"] h1 h2 h2' h3 by blast
qed

theorem dp_table_zero_capacity_counterexample:
  "valid_call 1 0 [5, 0, 0] \<and> nonneg_items 1 [5, 0, 0] \<and>
   dp_table 1 0 [5, 0, 0] = Some [0, 5]"
  by (simp add: valid_call_def nonneg_items_def INT_MAX_def INT_MIN_def item_eval dp_eval)

section \<open>The backtrace on the table of the builder\<close>

lemma bt_loop_until: "bt_loop c i s = bt_until c 0 i s"
proof (induction i arbitrary: s)
  case 0
  show ?case by (simp add: bt_loop.simps bt_until.simps)
next
  case (Suc i)
  show ?case
    by (subst bt_loop.simps, subst bt_until.simps) (simp add: Suc split: option.splits)
qed

lemma table_load:
  assumes "valid_call n c objs" "dp_table n c objs = Some vals" "p \<le> nat n" "k \<le> nat c"
  shows "load vals (cell_index c p k) = Some (tab objs p k)"
    and "cell_index c p k < length vals"
proof -
  from dp_table_cells [OF assms(1)] obtain vals' where
    "dp_table n c objs = Some vals'" and
    c: "\<forall>p k. p \<le> nat n \<and> k \<le> nat c \<longrightarrow>
       cell_index c p k = p * (nat c + 1) + k \<and> cell_index c p k < length vals' \<and>
       table_cell vals' c p k = tab objs p k"
    by blast
  then have "vals' = vals"
    using assms(2) by simp
  with c assms(3,4) have
    "cell_index c p k < length vals \<and> table_cell vals c p k = tab objs p k"
    by blast
  then show "load vals (cell_index c p k) = Some (tab objs p k)" "cell_index c p k < length vals"
    by (simp_all add: load_def table_cell_def)
qed

lemma same_items_refl: "same_items n objs objs"
  by (simp add: same_items_def)

lemma same_items_flag:
  assumes "same_items n objs objs1"
  shows "same_items n objs (objs1[p * 3 + 2 := x])"
proof -
  have "p * 3 + 2 \<noteq> j * 3" "p * 3 + 2 \<noteq> j * 3 + 1" for j
    by presburger+
  then have "objs1[p * 3 + 2 := x] ! (j * 3) = objs1 ! (j * 3)"
    "objs1[p * 3 + 2 := x] ! (j * 3 + 1) = objs1 ! (j * 3 + 1)" for j
    by (simp_all only: nth_list_update_neq not_False_eq_True)
  then show ?thesis
    using assms
    by (simp only: same_items_def item_value_def item_weight_def length_list_update) simp
qed

lemma bt_differs_table:
  assumes "valid_call n c objs" "dp_table n c objs = Some vals"
    and "p < nat n" "0 \<le> k" "k \<le> c"
  shows "bt_differs c (Suc p) \<lparr>bt_k = k, bt_objs = objs1, bt_vals = vals\<rparr>
    = Some (tab objs (Suc p) (nat k) \<noteq> tab objs p (nat k))"
proof -
  have a: "0 \<le> n" "0 \<le> c" "(n + 1) * (c + 1) \<le> INT_MAX"
    using assms(1) by (simp_all add: valid_call_def)
  note v = valid_sizes [OF a]
  have k: "size_of_int k = nat k"
    using assms(4,5) v(2) by (simp add: size_of_int_nat INT_MAX_def)
  have p: "size_sub (Suc p) 1 = p"
    using assms(3) v(1) a(1) by (subst size_sub_nat) (simp_all add: INT_MAX_def)
  have "nat k \<le> nat c" using assms(5) by simp
  note l1 = table_load(1) [OF assms(1,2) _ this, of "Suc p"]
    and l2 = table_load(1) [OF assms(1,2) _ this, of p]
  have "Suc p \<le> nat n" "p \<le> nat n"
    using assms(3) by simp_all
  then show ?thesis
    unfolding bt_differs_def
    by (simp only: bt_state.select_convs k p l1 l2 Option.bind.bind_lunit)
qed

lemma bt_body_table:
  assumes "valid_call n c objs" "nonneg_items n objs" "dp_table n c objs = Some vals"
    and "p < nat n" "0 \<le> k" "k \<le> c" and same: "same_items n objs objs1"
  shows "bt_body c (Suc p) \<lparr>bt_k = k, bt_objs = objs1, bt_vals = vals\<rparr> =
    Some (if tab objs (Suc p) (nat k) \<noteq> tab objs p (nat k)
      then \<lparr>bt_k = k - item_weight objs p, bt_objs = objs1[p * 3 + 2 := 1], bt_vals = vals\<rparr>
      else \<lparr>bt_k = k, bt_objs = objs1, bt_vals = vals\<rparr>)"
proof (cases "tab objs (Suc p) (nat k) \<noteq> tab objs p (nat k)")
  case False
  show ?thesis
    unfolding bt_body_def
    by (simp only: bt_differs_table [OF assms(1,3,4,5,6)] False Option.bind.bind_lunit if_False)
next
  case True
  have a: "0 \<le> n" "0 \<le> c" "(n + 1) * (c + 1) \<le> INT_MAX" "length objs = nat n * 3"
    using assms(1) by (simp_all add: valid_call_def)
  note v = valid_sizes [OF a(1-3)]
  note r = item_in_range [OF assms(1,4)]
  have nn: "0 \<le> item_value objs p" "0 \<le> item_weight objs p"
    using assms(2,4) by (simp_all add: nonneg_items_def)
  note d = tab_differs [OF nn(1) r(2) nn(2) r(4) True]
  have len: "length objs1 = nat n * 3"
    using same a(4) by (simp add: same_items_def)
  have small: "Suc p \<le> 2147483648"
    using assms(4) v(1) by (simp add: INT_MAX_def)
  have ix2: "obj_index (Suc p) 2 = p * 3 + 2" and ix1: "obj_index (Suc p) 1 = p * 3 + 1"
    using small by (simp_all add: obj_index_nat)
  have st: "store objs1 (p * 3 + 2) 1 = Some (objs1[p * 3 + 2 := 1])"
    using assms(4) len by (simp add: store_def)
  have "objs1[p * 3 + 2 := 1] ! (p * 3 + 1) = item_weight objs p"
    using same assms(4) by (simp add: same_items_def item_weight_def)
  then have ld: "load (objs1[p * 3 + 2 := 1]) (p * 3 + 1) = Some (item_weight objs p)"
    using assms(4) len by (simp add: load_def)
  have "0 \<le> k - item_weight objs p" "k - item_weight objs p \<le> c"
    using d(1) nn(2) assms(5,6) by simp_all
  then have wr: "int_wrap (k - item_weight objs p) = k - item_weight objs p"
    using v(2) by (intro int_wrap_id) (simp_all add: INT_MIN_def)
  show ?thesis
    unfolding bt_body_def
    by (simp only: bt_differs_table [OF assms(1,3,4,5,6)] True Option.bind.bind_lunit if_True
        bt_state.select_convs bt_state.update_convs ix1 ix2 st ld wr not_False_eq_True)
qed


lemma item_flag_update:
  assumes "p * 3 + 2 < length objs1"
  shows "item_flag (objs1[p * 3 + 2 := x]) q = (if q = p then x else item_flag objs1 q)"
proof (cases "q = p")
  case True
  then show ?thesis
    using assms by (simp only: item_flag_def nth_list_update_eq) simp
next
  case False
  then have "p * 3 + 2 \<noteq> q * 3 + 2" by simp
  then show ?thesis
    using False by (simp only: item_flag_def nth_list_update_neq if_False not_False_eq_True)
qed

lemma bt_until_table:
  assumes "valid_call n c objs" "nonneg_items n objs" "dp_table n c objs = Some vals"
  shows "i \<le> nat n \<Longrightarrow> j \<le> i \<Longrightarrow> 0 \<le> k \<Longrightarrow> k \<le> c \<Longrightarrow> same_items n objs objs1 \<Longrightarrow>
    \<exists>k' objs' S.
      bt_until c j i \<lparr>bt_k = k, bt_objs = objs1, bt_vals = vals\<rparr>
        = Some \<lparr>bt_k = k', bt_objs = objs', bt_vals = vals\<rparr> \<and>
      0 \<le> k' \<and> k' \<le> k \<and> same_items n objs objs' \<and> S \<subseteq> {j..<i} \<and>
      (\<forall>q < nat n. item_flag objs' q = (if q \<in> S then 1 else item_flag objs1 q)) \<and>
      total_weight objs S = k - k' \<and>
      total_value objs S = tab objs i (nat k) - tab objs j (nat k')"
proof (induction i arbitrary: k objs1)
  case 0
  then have "j = 0" by simp
  then have "bt_until c j 0 \<lparr>bt_k = k, bt_objs = objs1, bt_vals = vals\<rparr>
      = Some \<lparr>bt_k = k, bt_objs = objs1, bt_vals = vals\<rparr>"
    by (simp add: bt_until.simps)
  moreover have "total_weight objs {} = k - k" "total_value objs {} = tab objs 0 (nat k) - tab objs j (nat k)"
    using \<open>j = 0\<close> by (simp_all add: total_weight_def total_value_def)
  ultimately show ?case
    using "0.prems" by (intro exI [of _ k] exI [of _ objs1] exI [of _ "{}"]) simp
next
  case (Suc p)
  show ?case
  proof (cases "j = Suc p")
    case True
    then have "bt_until c j (Suc p) \<lparr>bt_k = k, bt_objs = objs1, bt_vals = vals\<rparr>
        = Some \<lparr>bt_k = k, bt_objs = objs1, bt_vals = vals\<rparr>"
      by (simp add: bt_until.simps)
    moreover have "total_weight objs {} = k - k"
      "total_value objs {} = tab objs (Suc p) (nat k) - tab objs j (nat k)"
      using True by (simp_all add: total_weight_def total_value_def del: tab.simps)
    ultimately show ?thesis
      using Suc.prems by (intro exI [of _ k] exI [of _ objs1] exI [of _ "{}"]) simp
  next
    case False
    then have j: "j \<le> p" "j < Suc p" and p: "p < nat n" "p \<le> nat n"
      using Suc.prems by simp_all
    have len: "p * 3 + 2 < length objs1"
      using Suc.prems(5) assms(1) p(1) by (simp add: same_items_def valid_call_def)
    note body = bt_body_table [OF assms p(1) Suc.prems(3,4,5)]
    show ?thesis
    proof (cases "tab objs (Suc p) (nat k) \<noteq> tab objs p (nat k)")
      case same: False
      from Suc.IH [OF p(2) j(1) Suc.prems(3,4,5)] obtain k' objs' S where
        run: "bt_until c j p \<lparr>bt_k = k, bt_objs = objs1, bt_vals = vals\<rparr>
          = Some \<lparr>bt_k = k', bt_objs = objs', bt_vals = vals\<rparr>" and
        k': "0 \<le> k'" "k' \<le> k" and si: "same_items n objs objs'" and S: "S \<subseteq> {j..<p}" and
        fl: "\<forall>q < nat n. item_flag objs' q = (if q \<in> S then 1 else item_flag objs1 q)" and
        tw: "total_weight objs S = k - k'" and
        tv: "total_value objs S = tab objs p (nat k) - tab objs j (nat k')"
        by blast
      have "bt_until c j (Suc p) \<lparr>bt_k = k, bt_objs = objs1, bt_vals = vals\<rparr>
          = Some \<lparr>bt_k = k', bt_objs = objs', bt_vals = vals\<rparr>"
        by (subst bt_until.simps)
          (simp only: j(2) if_True body same if_False option.case diff_Suc_1 run)
      moreover have "S \<subseteq> {j..<Suc p}"
        using S by auto
      moreover have "total_value objs S = tab objs (Suc p) (nat k) - tab objs j (nat k')"
        using same tv by (simp del: tab.simps)
      ultimately show ?thesis
        using k' si fl tw by blast
    next
      case differs: True
      note r = item_in_range [OF assms(1) p(1)]
      have nn: "0 \<le> item_value objs p" "0 \<le> item_weight objs p"
        using assms(2) p(1) by (simp_all add: nonneg_items_def)
      note d = tab_differs [OF nn(1) r(2) nn(2) r(4) differs]
      define k1 where "k1 = k - item_weight objs p"
      have k1: "0 \<le> k1" "k1 \<le> c" "k1 \<le> k" "nat k1 = nat k - nat (item_weight objs p)"
        using d(1) nn(2) Suc.prems(3,4) by (simp_all add: k1_def nat_diff_distrib)
      define objs2 where "objs2 = objs1[p * 3 + 2 := 1]"
      have fl2: "item_flag objs2 q = (if q = p then 1 else item_flag objs1 q)" for q
        unfolding objs2_def by (rule item_flag_update [OF len])
      have si1: "same_items n objs objs2"
        unfolding objs2_def using Suc.prems(5) by (rule same_items_flag)
      from Suc.IH [OF p(2) j(1) k1(1,2) si1] obtain k' objs' S where
        run: "bt_until c j p \<lparr>bt_k = k1, bt_objs = objs2, bt_vals = vals\<rparr>
          = Some \<lparr>bt_k = k', bt_objs = objs', bt_vals = vals\<rparr>" and
        k': "0 \<le> k'" "k' \<le> k1" and si: "same_items n objs objs'" and S: "S \<subseteq> {j..<p}" and
        fl: "\<forall>q < nat n. item_flag objs' q
          = (if q \<in> S then 1 else item_flag objs2 q)" and
        tw: "total_weight objs S = k1 - k'" and
        tv: "total_value objs S = tab objs p (nat k1) - tab objs j (nat k')"
        by blast
      have fin: "finite S" and notin: "p \<notin> S"
        using S by (auto intro: finite_subset [of _ "{j..<p}"])
      have "bt_until c j (Suc p) \<lparr>bt_k = k, bt_objs = objs1, bt_vals = vals\<rparr>
          = Some \<lparr>bt_k = k', bt_objs = objs', bt_vals = vals\<rparr>"
        by (subst bt_until.simps)
          (simp only: j(2) if_True body differs not_False_eq_True option.case diff_Suc_1
            k1_def [symmetric] objs2_def [symmetric] run)
      moreover have "insert p S \<subseteq> {j..<Suc p}"
        using S j(1) by auto
      moreover have "\<forall>q < nat n. item_flag objs' q
          = (if q \<in> insert p S then 1 else item_flag objs1 q)"
        using fl by (simp add: fl2)
      moreover have "total_weight objs (insert p S) = k - k'"
        using fin notin tw by (simp add: total_weight_def k1_def)
      moreover have "total_value objs (insert p S)
          = tab objs (Suc p) (nat k) - tab objs j (nat k')"
        using fin notin tv d(2) by (simp add: total_value_def k1(4) del: tab.simps)
      moreover have "k' \<le> k"
        using k'(2) k1(3) by simp
      ultimately show ?thesis
        using k'(1) si by blast
    qed
  qed
qed


lemma size_of_count:
  assumes "valid_call n c objs"
  shows "size_of_int n = nat n"
proof -
  have a: "0 \<le> n" "0 \<le> c" "(n + 1) * (c + 1) \<le> INT_MAX"
    using assms by (simp_all add: valid_call_def)
  from valid_sizes(1) [OF a] a(1) show ?thesis
    by (simp add: size_of_int_nat INT_MAX_def)
qed

lemma selected_sum:
  assumes "S \<subseteq> {..<m::nat}" "\<forall>q < m. g q = (if q \<in> S then 1 else (0::int))"
  shows "(\<Sum>q<m. f q * g q) = sum f S"
proof -
  have "(\<Sum>q<m. f q * g q) = (\<Sum>q\<in>{..<m}. if q \<in> S then f q else 0)"
    using assms(2) by (intro sum.cong) simp_all
  also have "\<dots> = sum f ({..<m} \<inter> S)"
    by (rule sum.inter_restrict [symmetric]) simp
  also have "{..<m} \<inter> S = S"
    using assms(1) by auto
  finally show ?thesis .
qed

text \<open>
  C3. For a valid call with non-negative values and weights whose flags are all 0 on entry
  (as \<open>main\<close> allocates them), \<open>dp_backtrace\<close> on the table of the builder returns, and the
  flags it leaves mark items whose total weight is at most \<open>c\<close> and whose total value is
  \<open>table[N][C]\<close>; that value is the maximum over the subsets of total weight at most \<open>c\<close>
  whenever this maximum is at most \<open>INT_MAX\<close>.
\<close>

theorem dp_backtrace_selection:
  assumes "valid_call n c objs" and "nonneg_items n objs"
    and "\<forall>j < nat n. item_flag objs j = 0"
  shows "\<exists>vals s. dp_table n c objs = Some vals \<and> dp_backtrace n c objs vals = Some s \<and>
    (\<Sum>j<nat n. item_weight (bt_objs s) j * item_flag (bt_objs s) j) \<le> c \<and>
    (\<Sum>j<nat n. item_value (bt_objs s) j * item_flag (bt_objs s) j)
      = table_cell vals c (nat n) (nat c) \<and>
    (best_value objs (nat n) c \<le> INT_MAX \<longrightarrow>
       (\<Sum>j<nat n. item_value (bt_objs s) j * item_flag (bt_objs s) j)
         = best_value objs (nat n) c)"
proof -
  have c: "0 \<le> c"
    using assms(1) by (simp add: valid_call_def)
  from dp_table_cells [OF assms(1)] obtain vals where
    tbl: "dp_table n c objs = Some vals" and
    cell: "table_cell vals c (nat n) (nat c) = tab objs (nat n) (nat c)"
    by auto
  from bt_until_table [OF assms(1,2) tbl, of "nat n" 0 c objs] c
  obtain k' objs' S where
    run: "bt_until c 0 (nat n) \<lparr>bt_k = c, bt_objs = objs, bt_vals = vals\<rparr>
      = Some \<lparr>bt_k = k', bt_objs = objs', bt_vals = vals\<rparr>" and
    k': "0 \<le> k'" and si: "same_items n objs objs'" and S: "S \<subseteq> {0..<nat n}" and
    fl: "\<forall>q < nat n. item_flag objs' q = (if q \<in> S then 1 else item_flag objs q)" and
    tw: "total_weight objs S = c - k'" and
    tv: "total_value objs S = tab objs (nat n) (nat c) - tab objs 0 (nat k')"
    using same_items_refl [of n objs] by auto
  define s where "s = \<lparr>bt_k = k', bt_objs = objs', bt_vals = vals\<rparr>"
  have bt: "dp_backtrace n c objs vals = Some s"
    by (simp only: dp_backtrace_def size_of_count [OF assms(1)] bt_loop_until run s_def)
  have S': "S \<subseteq> {..<nat n}"
    using S by auto
  have fl': "\<forall>q < nat n. item_flag objs' q = (if q \<in> S then 1 else 0)"
    using fl assms(3) by simp
  have "(\<Sum>j<nat n. item_weight objs' j * item_flag objs' j) = sum (item_weight objs') S"
    using S' fl' by (rule selected_sum)
  also have "\<dots> = total_weight objs S"
    unfolding total_weight_def using si S' by (intro sum.cong) (auto simp: same_items_def)
  finally have w: "(\<Sum>j<nat n. item_weight objs' j * item_flag objs' j) \<le> c"
    using tw k' by simp
  have "(\<Sum>j<nat n. item_value objs' j * item_flag objs' j) = sum (item_value objs') S"
    using S' fl' by (rule selected_sum)
  also have "\<dots> = total_value objs S"
    unfolding total_value_def using si S' by (intro sum.cong) (auto simp: same_items_def)
  finally have v: "(\<Sum>j<nat n. item_value objs' j * item_flag objs' j) = tab objs (nat n) (nat c)"
    using tv by simp
  have "tab objs (nat n) (nat c) = best_value objs (nat n) c"
    if "best_value objs (nat n) c \<le> INT_MAX"
    using tab_best_value [OF assms(1,2) le_refl that le_refl le_refl] c by simp
  then show ?thesis
    using tbl bt w v cell by (intro exI [of _ vals] exI [of _ s]) (simp add: s_def)
qed

theorem dp_backtrace_selection_witness:
  "valid_call 3 5 [60, 1, 0, 100, 2, 0, 120, 3, 0] \<and> nonneg_items 3 [60, 1, 0, 100, 2, 0, 120, 3, 0] \<and>
   item_flag [60, 1, 0, 100, 2, 0, 120, 3, 0] 0 = 0 \<and> item_flag [60, 1, 0, 100, 2, 0, 120, 3, 0] 1 = 0 \<and> item_flag [60, 1, 0, 100, 2, 0, 120, 3, 0] 2 = 0 \<and>
   best_value [60, 1, 0, 100, 2, 0, 120, 3, 0] (nat 3) 5 \<le> INT_MAX \<and>
   dp_table 3 5 [60, 1, 0, 100, 2, 0, 120, 3, 0] = Some
     [0, 0, 0, 0, 0, 0, 0, 60, 60, 60, 60, 60, 0, 60, 100, 160, 160, 160, 0, 60, 100, 160, 180, 220] \<and>
   dp_backtrace 3 5 [60, 1, 0, 100, 2, 0, 120, 3, 0]
     [0, 0, 0, 0, 0, 0, 0, 60, 60, 60, 60, 60, 0, 60, 100, 160, 160, 160, 0, 60, 100, 160, 180, 220]
     = Some \<lparr>bt_k = 0, bt_objs = [60, 1, 0, 100, 2, 1, 120, 3, 1],
         bt_vals = [0, 0, 0, 0, 0, 0, 0, 60, 60, 60, 60, 60, 0, 60, 100, 160, 160, 160, 0, 60, 100, 160, 180, 220]\<rparr> \<and>
   (\<Sum>j<nat 3. item_weight [60, 1, 0, 100, 2, 1, 120, 3, 1] j * item_flag [60, 1, 0, 100, 2, 1, 120, 3, 1] j) \<le> 5 \<and>
   (\<Sum>j<nat 3. item_value [60, 1, 0, 100, 2, 1, 120, 3, 1] j * item_flag [60, 1, 0, 100, 2, 1, 120, 3, 1] j)
     = table_cell [0, 0, 0, 0, 0, 0, 0, 60, 60, 60, 60, 60, 0, 60, 100, 160, 160, 160, 0, 60, 100, 160, 180, 220] 5 (nat 3) (nat 5) \<and>
   (\<Sum>j<nat 3. item_value [60, 1, 0, 100, 2, 1, 120, 3, 1] j * item_flag [60, 1, 0, 100, 2, 1, 120, 3, 1] j) = best_value [60, 1, 0, 100, 2, 0, 120, 3, 0] (nat 3) 5 \<and>
   best_value [60, 1, 0, 100, 2, 0, 120, 3, 0] (nat 3) 5 = 220"
proof -
  define X :: "int list" where "X = [60, 1, 0, 100, 2, 0, 120, 3, 0]"
  define Y :: "int list" where "Y = [60, 1, 0, 100, 2, 1, 120, 3, 1]"
  define T :: "int list" where "T = [0, 0, 0, 0, 0, 0, 0, 60, 60, 60, 60, 60, 0, 60, 100, 160, 160, 160, 0, 60, 100, 160, 180, 220]"
  have h1: "valid_call 3 5 X"
    by (simp add: X_def valid_call_def INT_MAX_def INT_MIN_def)
  have h2: "nonneg_items 3 X"
    by (simp add: X_def nonneg_items_def item_eval less_Suc_eq numeral_3_eq_3)
  have f: "item_flag X 0 = 0" "item_flag X 1 = 0" "item_flag X 2 = 0"
    by (simp_all add: X_def item_eval)
  have h3: "\<forall>j < nat 3. item_flag X j = 0"
    by (simp add: X_def item_eval less_Suc_eq numeral_3_eq_3)
  have "best_value X (nat 3) (int 5) = opt X (nat 3) 5"
    by (rule opt_best_value [OF h2]) simp
  also have "\<dots> = 220"
    by (simp add: X_def item_eval numeral_3_eq_3)
  finally have b220: "best_value X (nat 3) 5 = 220"
    by simp
  then have fit: "best_value X (nat 3) 5 \<le> INT_MAX"
    by (simp add: INT_MAX_def)
  have h4: "dp_table 3 5 X = Some T"
    by (simp add: X_def T_def dp_eval)
  have h5: "dp_backtrace 3 5 X T = Some \<lparr>bt_k = 0, bt_objs = Y, bt_vals = T\<rparr>"
    by (simp add: X_def Y_def T_def bt_eval)
  from dp_backtrace_selection [OF h1 h2 h3] obtain vals s where
    v: "dp_table 3 5 X = Some vals" and
    b: "dp_backtrace 3 5 X vals = Some s" and
    w: "(\<Sum>j<nat 3. item_weight (bt_objs s) j * item_flag (bt_objs s) j) \<le> 5" and
    e: "(\<Sum>j<nat 3. item_value (bt_objs s) j * item_flag (bt_objs s) j)
      = table_cell vals 5 (nat 3) (nat 5)" and
    o: "best_value X (nat 3) 5 \<le> INT_MAX \<longrightarrow>
       (\<Sum>j<nat 3. item_value (bt_objs s) j * item_flag (bt_objs s) j)
         = best_value X (nat 3) 5"
    by blast
  have vals: "vals = T"
    using v h4 by simp
  have s: "bt_objs s = Y"
    using b h5 by (auto simp: vals)
  note w' = w [unfolded s]
  note e' = e [unfolded s vals]
  note o' = o [unfolded s, rule_format, OF fit]
  show ?thesis
    using h1 h2 f fit h4 h5 w' e' o' b220 unfolding X_def Y_def T_def by (intro conjI)
qed

theorem dp_backtrace_selection_counterexample:
  "valid_call 2 0 [1073741824, 0, 0, 1073741824, 0, 0] \<and> nonneg_items 2 [1073741824, 0, 0, 1073741824, 0, 0] \<and>
   item_flag [1073741824, 0, 0, 1073741824, 0, 0] 0 = 0 \<and> item_flag [1073741824, 0, 0, 1073741824, 0, 0] 1 = 0 \<and>
   dp_table 2 0 [1073741824, 0, 0, 1073741824, 0, 0] = Some [0, 1073741824, 1073741824] \<and>
   dp_backtrace 2 0 [1073741824, 0, 0, 1073741824, 0, 0] [0, 1073741824, 1073741824]
     = Some \<lparr>bt_k = 0, bt_objs = [1073741824, 0, 1, 1073741824, 0, 0], bt_vals = [0, 1073741824, 1073741824]\<rparr> \<and>
   (\<Sum>j<nat 2. item_value [1073741824, 0, 1, 1073741824, 0, 0] j * item_flag [1073741824, 0, 1, 1073741824, 0, 0] j) = 1073741824 \<and>
   best_value [1073741824, 0, 0, 1073741824, 0, 0] (nat 2) 0 = 2147483648 \<and>
   valid_call 2 3 [7, 4, 1, 3, 3, 0] \<and> nonneg_items 2 [7, 4, 1, 3, 3, 0] \<and>
   item_flag [7, 4, 1, 3, 3, 0] 0 = 1 \<and>
   dp_table 2 3 [7, 4, 1, 3, 3, 0] = Some [0, 0, 0, 0, 0, 0, 0, 0, 0, 0, 0, 3] \<and>
   dp_backtrace 2 3 [7, 4, 1, 3, 3, 0] [0, 0, 0, 0, 0, 0, 0, 0, 0, 0, 0, 3]
     = Some \<lparr>bt_k = 0, bt_objs = [7, 4, 1, 3, 3, 1], bt_vals = [0, 0, 0, 0, 0, 0, 0, 0, 0, 0, 0, 3]\<rparr> \<and>
   (\<Sum>j<nat 2. item_weight [7, 4, 1, 3, 3, 1] j * item_flag [7, 4, 1, 3, 3, 1] j) = 7 \<and>
   (\<Sum>j<nat 2. item_value [7, 4, 1, 3, 3, 1] j * item_flag [7, 4, 1, 3, 3, 1] j) = 10 \<and>
   table_cell [0, 0, 0, 0, 0, 0, 0, 0, 0, 0, 0, 3] 3 (nat 2) (nat 3) = 3"
proof -
  define O1 :: "int list" where "O1 = [1073741824, 0, 0, 1073741824, 0, 0]"
  have a1: "valid_call 2 0 O1"
    by (simp add: O1_def valid_call_def INT_MAX_def INT_MIN_def)
  have a2: "nonneg_items 2 O1"
    by (simp add: O1_def nonneg_items_def item_eval less_Suc_eq numeral_2_eq_2)
  have a3: "item_flag O1 0 = 0" "item_flag O1 1 = 0"
    by (simp_all add: O1_def item_eval)
  have a4: "dp_table 2 0 O1 = Some [0, 1073741824, 1073741824]"
    by (simp add: O1_def dp_eval)
  have a5: "dp_backtrace 2 0 O1 [0, 1073741824, 1073741824]
     = Some \<lparr>bt_k = 0, bt_objs = [1073741824, 0, 1, 1073741824, 0, 0], bt_vals = [0, 1073741824, 1073741824]\<rparr>"
    by (simp add: O1_def bt_eval)
  have a6: "(\<Sum>j<nat 2. item_value [1073741824, 0, 1, 1073741824, 0, 0] j * item_flag [1073741824, 0, 1, 1073741824, 0, 0] j) = 1073741824"
    by (simp add: item_eval numeral_2_eq_2)
  have "best_value O1 (nat 2) (int 0) = opt O1 (nat 2) 0"
    by (rule opt_best_value [OF a2]) simp
  also have "\<dots> = 2147483648"
    by (simp add: O1_def item_eval numeral_2_eq_2)
  finally have a7: "best_value O1 (nat 2) 0 = 2147483648"
    by simp
  have b1: "valid_call 2 3 [7, 4, 1, 3, 3, 0]"
    by (simp add: valid_call_def INT_MAX_def INT_MIN_def)
  have b2: "nonneg_items 2 [7, 4, 1, 3, 3, 0]"
    by (simp add: nonneg_items_def item_eval less_Suc_eq numeral_2_eq_2)
  have b3: "item_flag [7, 4, 1, 3, 3, 0] 0 = 1"
    by (simp add: item_eval)
  have b4: "dp_table 2 3 [7, 4, 1, 3, 3, 0] = Some [0, 0, 0, 0, 0, 0, 0, 0, 0, 0, 0, 3]"
    by (simp add: dp_eval)
  have b5: "dp_backtrace 2 3 [7, 4, 1, 3, 3, 0] [0, 0, 0, 0, 0, 0, 0, 0, 0, 0, 0, 3]
     = Some \<lparr>bt_k = 0, bt_objs = [7, 4, 1, 3, 3, 1], bt_vals = [0, 0, 0, 0, 0, 0, 0, 0, 0, 0, 0, 3]\<rparr>"
    by (simp add: bt_eval)
  have b6: "(\<Sum>j<nat 2. item_weight [7, 4, 1, 3, 3, 1] j * item_flag [7, 4, 1, 3, 3, 1] j) = 7"
    by (simp add: item_eval numeral_2_eq_2)
  have b7: "(\<Sum>j<nat 2. item_value [7, 4, 1, 3, 3, 1] j * item_flag [7, 4, 1, 3, 3, 1] j) = 10"
    by (simp add: item_eval numeral_2_eq_2)
  have b8: "table_cell [0, 0, 0, 0, 0, 0, 0, 0, 0, 0, 0, 3] 3 (nat 2) (nat 3) = 3"
    by (simp add: item_eval c_eval)
  show ?thesis
    using a1 a2 a3 a4 a5 a6 a7 b1 b2 b3 b4 b5 b6 b7 b8 unfolding O1_def by (intro conjI)
qed

text \<open>
  C6. On the table of the builder, for a valid call with non-negative values and
  weights, the backtrace reaches every counter \<open>j\<close> from \<open>n\<close> down to 0 with a cursor
  \<open>k\<close> between 0 and \<open>c\<close>; the two cells it reads there, \<open>vals[j*(c+1) + k]\<close> and
  \<open>vals[(j-1)*(c+1) + k]\<close>, lie in rows \<open>j\<close> and \<open>j-1\<close> of the allocated table; and when
  they differ, so that the item is recorded, the weight of the item is at most \<open>k\<close>.
\<close>

theorem dp_backtrace_cursor_in_range:
  assumes "valid_call n c objs" and "nonneg_items n objs"
  shows "\<exists>vals. dp_table n c objs = Some vals \<and> length vals = (nat n + 1) * (nat c + 1) \<and>
    dp_backtrace n c objs vals \<noteq> None \<and>
    (\<forall>j \<le> nat n. \<exists>s.
       bt_until c j (size_of_int n) \<lparr>bt_k = c, bt_objs = objs, bt_vals = vals\<rparr> = Some s \<and>
       bt_vals s = vals \<and> 0 \<le> bt_k s \<and> bt_k s \<le> c \<and>
       (0 < j \<longrightarrow>
          cell_index c j (size_of_int (bt_k s)) = j * (nat c + 1) + nat (bt_k s) \<and>
          cell_index c j (size_of_int (bt_k s)) < length vals \<and>
          cell_index c (size_sub j 1) (size_of_int (bt_k s))
            = (j - 1) * (nat c + 1) + nat (bt_k s) \<and>
          cell_index c (size_sub j 1) (size_of_int (bt_k s)) < length vals \<and>
          (bt_differs c j s = Some True \<longrightarrow> item_weight (bt_objs s) (j - 1) \<le> bt_k s)))"
proof -
  have a: "0 \<le> n" "0 \<le> c" "(n + 1) * (c + 1) \<le> INT_MAX"
    using assms(1) by (simp_all add: valid_call_def)
  note v = valid_sizes [OF a]
  note sn = size_of_count [OF assms(1)]
  from dp_table_cells [OF assms(1)] obtain vals where
    tbl: "dp_table n c objs = Some vals" and
    len: "length vals = (nat n + 1) * (nat c + 1)" and
    cells: "\<And>p k. p \<le> nat n \<Longrightarrow> k \<le> nat c \<Longrightarrow>
       cell_index c p k = p * (nat c + 1) + k \<and> cell_index c p k < length vals"
    by blast
  have state: "\<exists>s.
       bt_until c j (size_of_int n) \<lparr>bt_k = c, bt_objs = objs, bt_vals = vals\<rparr> = Some s \<and>
       bt_vals s = vals \<and> 0 \<le> bt_k s \<and> bt_k s \<le> c \<and>
       (0 < j \<longrightarrow>
          cell_index c j (size_of_int (bt_k s)) = j * (nat c + 1) + nat (bt_k s) \<and>
          cell_index c j (size_of_int (bt_k s)) < length vals \<and>
          cell_index c (size_sub j 1) (size_of_int (bt_k s))
            = (j - 1) * (nat c + 1) + nat (bt_k s) \<and>
          cell_index c (size_sub j 1) (size_of_int (bt_k s)) < length vals \<and>
          (bt_differs c j s = Some True \<longrightarrow> item_weight (bt_objs s) (j - 1) \<le> bt_k s))"
    if j: "j \<le> nat n" for j
  proof -
    from bt_until_table [OF assms tbl, of "nat n" j c objs] j a(2)
    obtain k' objs' where
      run: "bt_until c j (nat n) \<lparr>bt_k = c, bt_objs = objs, bt_vals = vals\<rparr>
        = Some \<lparr>bt_k = k', bt_objs = objs', bt_vals = vals\<rparr>" and
      k': "0 \<le> k'" "k' \<le> c" and si: "same_items n objs objs'"
      using same_items_refl [of n objs] by auto
    have sk: "size_of_int k' = nat k'"
      using k' v(2) by (simp add: size_of_int_nat INT_MAX_def)
    have nk: "nat k' \<le> nat c"
      using k' by simp
    define s where "s = \<lparr>bt_k = k', bt_objs = objs', bt_vals = vals\<rparr>"
    have sel: "bt_vals s = vals" "bt_k s = k'" "bt_objs s = objs'"
      by (simp_all add: s_def)
    have reach: "bt_until c j (size_of_int n) \<lparr>bt_k = c, bt_objs = objs, bt_vals = vals\<rparr>
        = Some s"
      by (simp only: sn run s_def)
    have step: "cell_index c j (size_of_int (bt_k s)) = j * (nat c + 1) + nat (bt_k s) \<and>
          cell_index c j (size_of_int (bt_k s)) < length vals \<and>
          cell_index c (size_sub j 1) (size_of_int (bt_k s))
            = (j - 1) * (nat c + 1) + nat (bt_k s) \<and>
          cell_index c (size_sub j 1) (size_of_int (bt_k s)) < length vals \<and>
          (bt_differs c j s = Some True \<longrightarrow> item_weight (bt_objs s) (j - 1) \<le> bt_k s)"
      if "0 < j"
    proof -
      from that obtain p where jp: "j = Suc p"
        by (cases j) simp_all
      then have p: "j = Suc p" "p < nat n" "p \<le> nat n"
        using j by simp_all
      have sub: "size_sub (Suc p) 1 = p"
        using p(2) v(1) a(1) by (subst size_sub_nat) (simp_all add: INT_MAX_def)
      note r = item_in_range [OF assms(1) p(2)]
      have nn: "0 \<le> item_value objs p" "0 \<le> item_weight objs p"
        using assms(2) p(2) by (simp_all add: nonneg_items_def)
      have w: "item_weight objs' p = item_weight objs p"
        using si p(2) by (simp add: same_items_def)
      have "item_weight objs p \<le> k'" if "bt_differs c (Suc p) s = Some True"
      proof -
        from that bt_differs_table [OF assms(1) tbl p(2) k', of objs']
        have "tab objs (Suc p) (nat k') \<noteq> tab objs p (nat k')"
          by (simp add: s_def del: tab.simps)
        from tab_differs(1) [OF nn(1) r(2) nn(2) r(4) this] k'(1) nn(2)
        show ?thesis by simp
      qed
      then have dw: "bt_differs c j s = Some True \<longrightarrow> item_weight objs' (j - 1) \<le> k'"
        by (simp only: p(1) diff_Suc_1 w) blast
      from cells [OF j nk] have c1: "cell_index c j (nat k') = j * (nat c + 1) + nat k'"
        "cell_index c j (nat k') < length vals"
        by blast+
      from cells [OF p(3) nk] have "cell_index c p (nat k') = p * (nat c + 1) + nat k'"
        "cell_index c p (nat k') < length vals"
        by blast+
      then have c2: "cell_index c (size_sub j 1) (nat k') = (j - 1) * (nat c + 1) + nat k'"
        "cell_index c (size_sub j 1) (nat k') < length vals"
        by (simp_all only: p(1) sub diff_Suc_1)
      show ?thesis
        using dw c1 c2 by (simp only: sel sk)
    qed
    have "bt_vals s = vals \<and> 0 \<le> bt_k s \<and> bt_k s \<le> c"
      using k' by (simp only: sel)
    with reach step show ?thesis
      by blast
  qed
  have "dp_backtrace n c objs vals \<noteq> None"
    using state [of 0] by (auto simp: dp_backtrace_def bt_loop_until)
  with tbl len state show ?thesis
    by blast
qed


theorem dp_backtrace_cursor_in_range_witness:
  "valid_call 3 5 [60, 1, 0, 100, 2, 0, 120, 3, 0] \<and> nonneg_items 3 [60, 1, 0, 100, 2, 0, 120, 3, 0] \<and>
   dp_table 3 5 [60, 1, 0, 100, 2, 0, 120, 3, 0] = Some
     [0, 0, 0, 0, 0, 0, 0, 60, 60, 60, 60, 60, 0, 60, 100, 160, 160, 160, 0, 60, 100, 160, 180, 220] \<and>
   dp_backtrace 3 5 [60, 1, 0, 100, 2, 0, 120, 3, 0]
     [0, 0, 0, 0, 0, 0, 0, 60, 60, 60, 60, 60, 0, 60, 100, 160, 160, 160, 0, 60, 100, 160, 180, 220] \<noteq> None \<and>
   bt_until 5 2 (size_of_int 3)
     \<lparr>bt_k = 5, bt_objs = [60, 1, 0, 100, 2, 0, 120, 3, 0],
        bt_vals = [0, 0, 0, 0, 0, 0, 0, 60, 60, 60, 60, 60, 0, 60, 100, 160, 160, 160, 0, 60, 100, 160, 180, 220]\<rparr>
     = Some \<lparr>bt_k = 2, bt_objs = [60, 1, 0, 100, 2, 0, 120, 3, 1],
         bt_vals = [0, 0, 0, 0, 0, 0, 0, 60, 60, 60, 60, 60, 0, 60, 100, 160, 160, 160, 0, 60, 100, 160, 180, 220]\<rparr> \<and>
   (0::int) \<le> 2 \<and> (2::int) \<le> 5 \<and> (0::nat) < 2 \<and>
   cell_index 5 2 (size_of_int 2) = 2 * (nat 5 + 1) + nat 2 \<and>
   cell_index 5 2 (size_of_int 2)
     < length ([0, 0, 0, 0, 0, 0, 0, 60, 60, 60, 60, 60, 0, 60, 100, 160, 160, 160, 0, 60, 100, 160, 180, 220] :: int list) \<and>
   cell_index 5 (size_sub 2 1) (size_of_int 2) = (2 - 1) * (nat 5 + 1) + nat 2 \<and>
   cell_index 5 (size_sub 2 1) (size_of_int 2)
     < length ([0, 0, 0, 0, 0, 0, 0, 60, 60, 60, 60, 60, 0, 60, 100, 160, 160, 160, 0, 60, 100, 160, 180, 220] :: int list) \<and>
   bt_differs 5 2
     \<lparr>bt_k = 2, bt_objs = [60, 1, 0, 100, 2, 0, 120, 3, 1],
        bt_vals = [0, 0, 0, 0, 0, 0, 0, 60, 60, 60, 60, 60, 0, 60, 100, 160, 160, 160, 0, 60, 100, 160, 180, 220]\<rparr>
     = Some True \<and>
   item_weight [60, 1, 0, 100, 2, 0, 120, 3, 1] (2 - 1) \<le> 2"
proof -
  define T :: "int list" where
    "T = [0, 0, 0, 0, 0, 0, 0, 60, 60, 60, 60, 60, 0, 60, 100, 160, 160, 160, 0, 60, 100, 160, 180, 220]"
  define S :: bt_state where
    "S = \<lparr>bt_k = 2, bt_objs = [60, 1, 0, 100, 2, 0, 120, 3, 1], bt_vals = T\<rparr>"
  have h1: "valid_call 3 5 [60, 1, 0, 100, 2, 0, 120, 3, 0]"
    by (simp add: valid_call_def INT_MAX_def INT_MIN_def)
  have h2: "nonneg_items 3 [60, 1, 0, 100, 2, 0, 120, 3, 0]"
    by (simp add: nonneg_items_def item_eval less_Suc_eq numeral_3_eq_3)
  have h3: "dp_table 3 5 [60, 1, 0, 100, 2, 0, 120, 3, 0] = Some T"
    unfolding T_def by (simp add: dp_eval)
  have h4: "bt_until 5 2 (size_of_int 3) \<lparr>bt_k = 5, bt_objs = [60, 1, 0, 100, 2, 0, 120, 3, 0], bt_vals = T\<rparr> = Some S"
    unfolding T_def S_def by (simp add: bt_until.simps bt_eval)
  have h5: "bt_differs 5 2 S = Some True"
    unfolding T_def S_def by (simp add: bt_eval)
  from dp_backtrace_cursor_in_range [OF h1 h2] obtain vals where
    v: "dp_table 3 5 [60, 1, 0, 100, 2, 0, 120, 3, 0] = Some vals" and
    r: "dp_backtrace 3 5 [60, 1, 0, 100, 2, 0, 120, 3, 0] vals \<noteq> None" and
    st: "\<forall>j \<le> nat 3. \<exists>s.
       bt_until 5 j (size_of_int 3) \<lparr>bt_k = 5, bt_objs = [60, 1, 0, 100, 2, 0, 120, 3, 0], bt_vals = vals\<rparr> = Some s \<and>
       bt_vals s = vals \<and> 0 \<le> bt_k s \<and> bt_k s \<le> 5 \<and>
       (0 < j \<longrightarrow>
          cell_index 5 j (size_of_int (bt_k s)) = j * (nat 5 + 1) + nat (bt_k s) \<and>
          cell_index 5 j (size_of_int (bt_k s)) < length vals \<and>
          cell_index 5 (size_sub j 1) (size_of_int (bt_k s))
            = (j - 1) * (nat 5 + 1) + nat (bt_k s) \<and>
          cell_index 5 (size_sub j 1) (size_of_int (bt_k s)) < length vals \<and>
          (bt_differs 5 j s = Some True \<longrightarrow> item_weight (bt_objs s) (j - 1) \<le> bt_k s))"
    by blast
  have vals: "vals = T"
    using v h3 by simp
  have "(2::nat) \<le> nat 3" by simp
  from st [rule_format, OF this] obtain s where
    sall: "bt_until 5 2 (size_of_int 3) \<lparr>bt_k = 5, bt_objs = [60, 1, 0, 100, 2, 0, 120, 3, 0], bt_vals = vals\<rparr> = Some s \<and>
       bt_vals s = vals \<and> 0 \<le> bt_k s \<and> bt_k s \<le> 5 \<and>
       (0 < (2::nat) \<longrightarrow>
          cell_index 5 2 (size_of_int (bt_k s)) = 2 * (nat 5 + 1) + nat (bt_k s) \<and>
          cell_index 5 2 (size_of_int (bt_k s)) < length vals \<and>
          cell_index 5 (size_sub 2 1) (size_of_int (bt_k s))
            = (2 - 1) * (nat 5 + 1) + nat (bt_k s) \<and>
          cell_index 5 (size_sub 2 1) (size_of_int (bt_k s)) < length vals \<and>
          (bt_differs 5 2 s = Some True \<longrightarrow> item_weight (bt_objs s) (2 - 1) \<le> bt_k s))"
    ..
  have s: "s = S"
    using sall [THEN conjunct1] h4 by (simp add: vals)
  have sel: "bt_k S = 2" "bt_objs S = [60, 1, 0, 100, 2, 0, 120, 3, 1]"
    by (simp_all add: S_def)
  have pos: "(0::nat) < 2" by simp
  note rest = sall [THEN conjunct2, THEN conjunct2, unfolded s vals sel]
  note g = rest [THEN conjunct2, THEN conjunct2, rule_format, OF pos]
  have g1: "cell_index 5 2 (size_of_int 2) = 2 * (nat 5 + 1) + nat 2"
    by (rule g [THEN conjunct1])
  have g2: "cell_index 5 2 (size_of_int 2) < length T"
    by (rule g [THEN conjunct2, THEN conjunct1])
  have g3: "cell_index 5 (size_sub 2 1) (size_of_int 2) = (2 - 1) * (nat 5 + 1) + nat 2"
    by (rule g [THEN conjunct2, THEN conjunct2, THEN conjunct1])
  have g4: "cell_index 5 (size_sub 2 1) (size_of_int 2) < length T"
    by (rule g [THEN conjunct2, THEN conjunct2, THEN conjunct2, THEN conjunct1])
  have g5: "item_weight [60, 1, 0, 100, 2, 0, 120, 3, 1] (2 - 1) \<le> 2"
    by (rule g [THEN conjunct2, THEN conjunct2, THEN conjunct2, THEN conjunct2, rule_format, OF h5])
  have r': "dp_backtrace 3 5 [60, 1, 0, 100, 2, 0, 120, 3, 0] T \<noteq> None"
    by (rule r [unfolded vals])
  have b1: "(0::int) \<le> 2" and b2: "(2::int) \<le> 5"
    by (rule rest [THEN conjunct1], rule rest [THEN conjunct2, THEN conjunct1])
  show ?thesis
    using h1 h2 h3 r' h4 b1 b2 pos g1 g2 g3 g4 h5 g5
    unfolding T_def S_def by (intro conjI)
qed

section \<open>Ties\<close>







section \<open>What the backtrace assigns\<close>

lemma bt_body_cases:
  assumes "bt_body c i s = Some s'"
  shows "bt_vals s' = bt_vals s"
    and "bt_differs c i s = Some True \<or> bt_differs c i s = Some False"
    and "bt_differs c i s = Some False \<Longrightarrow> bt_objs s' = bt_objs s"
    and "bt_differs c i s = Some True \<Longrightarrow>
      obj_index i 2 < length (bt_objs s) \<and> bt_objs s' = (bt_objs s)[obj_index i 2 := 1]"
proof -
  from assms obtain d where d: "bt_differs c i s = Some d"
    by (auto simp: bt_body_def split: bind_splits)
  then show "bt_differs c i s = Some True \<or> bt_differs c i s = Some False"
    by (cases d) simp_all
  show "bt_objs s' = bt_objs s" if "bt_differs c i s = Some False"
    using assms that by (simp add: bt_body_def)
  have marked: "obj_index i 2 < length (bt_objs s) \<and> bt_objs s' = (bt_objs s)[obj_index i 2 := 1]
      \<and> bt_vals s' = bt_vals s"
    if "bt_differs c i s = Some True"
  proof -
    from assms that obtain objs' w where
      st: "store (bt_objs s) (obj_index i 2) 1 = Some objs'" and
      s': "s' = s\<lparr>bt_k := int_wrap (bt_k s - w), bt_objs := objs'\<rparr>"
      by (auto simp: bt_body_def split: bind_splits)
    from st have "obj_index i 2 < length (bt_objs s)" "objs' = (bt_objs s)[obj_index i 2 := 1]"
      by (auto simp: store_def split: if_splits)
    then show ?thesis
      by (simp add: s')
  qed
  then show "bt_differs c i s = Some True \<Longrightarrow>
      obj_index i 2 < length (bt_objs s) \<and> bt_objs s' = (bt_objs s)[obj_index i 2 := 1]"
    by blast
  show "bt_vals s' = bt_vals s"
  proof (cases d)
    case True
    with d marked show ?thesis by simp
  next
    case False
    with d assms show ?thesis by (simp add: bt_body_def)
  qed
qed

lemma bt_loop_writes:
  "i \<le> 2147483648 \<Longrightarrow> bt_loop c i s = Some s' \<Longrightarrow>
    bt_vals s' = bt_vals s \<and> length (bt_objs s') = length (bt_objs s) \<and>
    (\<exists>ws. bt_writes c i s = Some ws \<and> distinct ws \<and>
       (\<forall>j \<in> set ws. j < length (bt_objs s) \<and> (\<exists>q < i. j = q * 3 + 2)) \<and>
       bt_objs s' = fold (\<lambda>j a. a[j := 1]) ws (bt_objs s))"
proof (induction i arbitrary: s)
  case 0
  then have "s' = s"
    by (simp add: bt_loop.simps)
  then show ?case
    by (simp add: bt_writes.simps)
next
  case (Suc p)
  from Suc.prems(2) obtain s1 where
    body: "bt_body c (Suc p) s = Some s1" and rest: "bt_loop c p s1 = Some s'"
    by (subst (asm) bt_loop.simps) (simp split: option.splits)
  have small: "p \<le> 2147483648"
    using Suc.prems(1) by simp
  from Suc.IH [OF small rest] obtain ws where
    vals: "bt_vals s' = bt_vals s1" and len: "length (bt_objs s') = length (bt_objs s1)" and
    ws: "bt_writes c p s1 = Some ws" "distinct ws"
      "\<forall>j \<in> set ws. j < length (bt_objs s1) \<and> (\<exists>q < p. j = q * 3 + 2)"
      "bt_objs s' = fold (\<lambda>j a. a[j := 1]) ws (bt_objs s1)"
    by blast
  have ix: "obj_index (Suc p) 2 = p * 3 + 2"
    using Suc.prems(1) by (simp add: obj_index_nat)
  note b = bt_body_cases [OF body]
  from b(2) show ?case
  proof
    assume d: "bt_differs c (Suc p) s = Some False"
    have "bt_writes c (Suc p) s = Some ws"
      by (subst bt_writes.simps) (simp add: body ws(1) d)
    moreover have "\<forall>j \<in> set ws. j < length (bt_objs s) \<and> (\<exists>q < Suc p. j = q * 3 + 2)"
      using ws(3) b(3) [OF d] less_Suc_eq by auto
    ultimately show ?thesis
      using vals len ws(2,4) b(1) b(3) [OF d] by auto
  next
    assume d: "bt_differs c (Suc p) s = Some True"
    from b(4) [OF d] have lt: "p * 3 + 2 < length (bt_objs s)"
      and upd: "bt_objs s1 = (bt_objs s)[p * 3 + 2 := 1]"
      by (simp_all only: ix)
    have "bt_writes c (Suc p) s = Some ((p * 3 + 2) # ws)"
      by (subst bt_writes.simps) (simp add: body ws(1) d ix)
    moreover have "p * 3 + 2 \<notin> set ws"
      using ws(3) by auto
    moreover have "\<forall>j \<in> set ((p * 3 + 2) # ws).
        j < length (bt_objs s) \<and> (\<exists>q < Suc p. j = q * 3 + 2)"
      using ws(3) lt upd less_Suc_eq by auto
    moreover have "bt_objs s' = fold (\<lambda>j a. a[j := 1]) ((p * 3 + 2) # ws) (bt_objs s)"
      using ws(4) upd by simp
    ultimately show ?thesis
      using vals len ws(2) b(1) upd by auto
  qed
qed

lemma fold_update_nth:
  "j < length a \<Longrightarrow>
    fold (\<lambda>j a. a[j := x]) ws a ! j = (if j \<in> set ws then x else a ! j)"
proof (induction ws arbitrary: a)
  case Nil
  show ?case by simp
next
  case (Cons w ws)
  then show ?case
    by (cases "j = w") (auto simp: nth_list_update)
qed

text \<open>
  C9. \<open>dp_backtrace\<close> assigns only to selection flags. For a count between 0 and
  \<open>INT_MAX\<close> and any arrays, a run that returns leaves the table as it was and changes no
  length; every cell of \<open>objs\<close> either keeps its value or is the flag \<open>objs[q*3 + 2]\<close> of
  an item \<open>q < n\<close> and is now 1, so values and weights are unchanged and no flag is cleared;
  and the subscripts assigned, each with the value 1, are pairwise distinct.
\<close>

theorem dp_backtrace_frame:
  assumes "0 \<le> n" and "n \<le> INT_MAX" and "dp_backtrace n c objs vals = Some s"
  shows "bt_vals s = vals \<and> length (bt_objs s) = length objs \<and>
    (\<forall>j < length objs.
       bt_objs s ! j = objs ! j \<or> (bt_objs s ! j = 1 \<and> (\<exists>q < nat n. j = q * 3 + 2))) \<and>
    (\<forall>q. q * 3 + 2 < length objs \<longrightarrow>
       item_value (bt_objs s) q = item_value objs q \<and>
       item_weight (bt_objs s) q = item_weight objs q \<and>
       (item_flag objs q = 1 \<longrightarrow> item_flag (bt_objs s) q = 1)) \<and>
    (\<exists>ws. bt_writes c (size_of_int n) \<lparr>bt_k = c, bt_objs = objs, bt_vals = vals\<rparr> = Some ws \<and>
       distinct ws \<and> bt_objs s = fold (\<lambda>j a. a[j := 1]) ws objs)"
proof -
  have sn: "size_of_int n = nat n" and small: "nat n \<le> 2147483648"
    using assms(1,2) by (simp_all add: size_of_int_nat INT_MAX_def)
  define s0 where "s0 = \<lparr>bt_k = c, bt_objs = objs, bt_vals = vals\<rparr>"
  have run: "bt_loop c (nat n) s0 = Some s"
    using assms(3) by (simp only: dp_backtrace_def sn s0_def)
  from bt_loop_writes [OF small run] obtain ws where
    v: "bt_vals s = vals" and len: "length (bt_objs s) = length objs" and
    ws: "bt_writes c (nat n) s0 = Some ws" "distinct ws"
      "\<forall>j \<in> set ws. j < length objs \<and> (\<exists>q < nat n. j = q * 3 + 2)"
      "bt_objs s = fold (\<lambda>j a. a[j := 1]) ws objs"
    by (auto simp: s0_def)
  have cell: "bt_objs s ! j = (if j \<in> set ws then 1 else objs ! j)" if "j < length objs" for j
    using that by (simp only: ws(4) fold_update_nth)
  have cells: "bt_objs s ! j = objs ! j \<or> (bt_objs s ! j = 1 \<and> (\<exists>q < nat n. j = q * 3 + 2))"
    if "j < length objs" for j
    using cell [OF that] ws(3) by auto
  have items: "item_value (bt_objs s) q = item_value objs q \<and>
       item_weight (bt_objs s) q = item_weight objs q \<and>
       (item_flag objs q = 1 \<longrightarrow> item_flag (bt_objs s) q = 1)"
    if q: "q * 3 + 2 < length objs" for q
  proof -
    have "q * 3 \<notin> set ws" "q * 3 + 1 \<notin> set ws"
    proof -
      have "q * 3 \<noteq> r * 3 + 2" "q * 3 + 1 \<noteq> r * 3 + 2" for r
        by presburger+
      then show "q * 3 \<notin> set ws" "q * 3 + 1 \<notin> set ws"
        using ws(3) by blast+
    qed
    moreover have "q * 3 < length objs" "q * 3 + 1 < length objs"
      using q by simp_all
    ultimately have "bt_objs s ! (q * 3) = objs ! (q * 3)"
      "bt_objs s ! (q * 3 + 1) = objs ! (q * 3 + 1)"
      using cell by simp_all
    moreover have "bt_objs s ! (q * 3 + 2) = 1" if "objs ! (q * 3 + 2) = 1"
      using cell [OF q] that by simp
    ultimately show ?thesis
      by (simp only: item_value_def item_weight_def item_flag_def) blast
  qed
  show ?thesis
    using v len cells items ws(1,2,4) unfolding sn s0_def by blast
qed


theorem dp_backtrace_frame_witness:
  "(0::int) \<le> 3 \<and> 3 \<le> INT_MAX \<and>
   dp_backtrace 3 5 [60, 1, 1, 100, 2, 0, 120, 3, 0]
     [0, 0, 0, 0, 0, 0, 0, 60, 60, 60, 60, 60, 0, 60, 100, 160, 160, 160, 0, 60, 100, 160, 180, 220]
     = Some \<lparr>bt_k = 0, bt_objs = [60, 1, 1, 100, 2, 1, 120, 3, 1],
         bt_vals = [0, 0, 0, 0, 0, 0, 0, 60, 60, 60, 60, 60, 0, 60, 100, 160, 160, 160, 0, 60, 100, 160, 180, 220]\<rparr> \<and>
   length ([60, 1, 1, 100, 2, 1, 120, 3, 1] :: int list) = length ([60, 1, 1, 100, 2, 0, 120, 3, 0] :: int list) \<and>
   bt_writes 5 (size_of_int 3)
     \<lparr>bt_k = 5, bt_objs = [60, 1, 1, 100, 2, 0, 120, 3, 0],
        bt_vals = [0, 0, 0, 0, 0, 0, 0, 60, 60, 60, 60, 60, 0, 60, 100, 160, 160, 160, 0, 60, 100, 160, 180, 220]\<rparr>
     = Some [8, 5] \<and>
   distinct [8, 5 :: nat] \<and>
   [60, 1, 1, 100, 2, 1, 120, 3, 1] = fold (\<lambda>j a. a[j := 1]) [8, 5] ([60, 1, 1, 100, 2, 0, 120, 3, 0] :: int list) \<and>
   item_value [60, 1, 1, 100, 2, 1, 120, 3, 1] 1 = item_value [60, 1, 1, 100, 2, 0, 120, 3, 0] 1 \<and>
   item_weight [60, 1, 1, 100, 2, 1, 120, 3, 1] 1 = item_weight [60, 1, 1, 100, 2, 0, 120, 3, 0] 1 \<and>
   item_flag [60, 1, 1, 100, 2, 0, 120, 3, 0] 0 = 1 \<and> item_flag [60, 1, 1, 100, 2, 1, 120, 3, 1] 0 = 1"
proof -
  define T :: "int list" where "T = [0, 0, 0, 0, 0, 0, 0, 60, 60, 60, 60, 60, 0, 60, 100, 160, 160, 160, 0, 60, 100, 160, 180, 220]"
  define S :: bt_state where "S = \<lparr>bt_k = 0, bt_objs = [60, 1, 1, 100, 2, 1, 120, 3, 1], bt_vals = T\<rparr>"
  have h1: "(0::int) \<le> 3" and h2: "3 \<le> INT_MAX"
    by (simp_all add: INT_MAX_def)
  have h3: "dp_backtrace 3 5 [60, 1, 1, 100, 2, 0, 120, 3, 0] T = Some S"
    unfolding T_def S_def by (simp add: bt_eval)
  have h4: "bt_writes 5 (size_of_int 3) \<lparr>bt_k = 5, bt_objs = [60, 1, 1, 100, 2, 0, 120, 3, 0], bt_vals = T\<rparr> = Some [8, 5]"
    unfolding T_def by (simp add: bt_writes.simps bt_eval)
  have sel: "bt_objs S = [60, 1, 1, 100, 2, 1, 120, 3, 1]" "bt_vals S = T"
    by (simp_all add: S_def)
  note f = dp_backtrace_frame [OF h1 h2 h3, unfolded sel]
  have g1: "length ([60, 1, 1, 100, 2, 1, 120, 3, 1] :: int list) = length ([60, 1, 1, 100, 2, 0, 120, 3, 0] :: int list)"
    by (rule f [THEN conjunct2, THEN conjunct1])
  note items = f [THEN conjunct2, THEN conjunct2, THEN conjunct2, THEN conjunct1, rule_format]
  have q1: "1 * 3 + 2 < length ([60, 1, 1, 100, 2, 0, 120, 3, 0] :: int list)" and q0: "0 * 3 + 2 < length ([60, 1, 1, 100, 2, 0, 120, 3, 0] :: int list)"
    by simp_all
  have g2: "item_value [60, 1, 1, 100, 2, 1, 120, 3, 1] 1 = item_value [60, 1, 1, 100, 2, 0, 120, 3, 0] 1"
    by (rule items [OF q1, THEN conjunct1])
  have g3: "item_weight [60, 1, 1, 100, 2, 1, 120, 3, 1] 1 = item_weight [60, 1, 1, 100, 2, 0, 120, 3, 0] 1"
    by (rule items [OF q1, THEN conjunct2, THEN conjunct1])
  have a4: "item_flag [60, 1, 1, 100, 2, 0, 120, 3, 0] 0 = 1"
    by (simp add: item_eval)
  have g4: "item_flag [60, 1, 1, 100, 2, 1, 120, 3, 1] 0 = 1"
    by (rule items [OF q0, THEN conjunct2, THEN conjunct2, rule_format, OF a4])
  from f [THEN conjunct2, THEN conjunct2, THEN conjunct2, THEN conjunct2] obtain ws where
    ws: "bt_writes 5 (size_of_int 3) \<lparr>bt_k = 5, bt_objs = [60, 1, 1, 100, 2, 0, 120, 3, 0], bt_vals = T\<rparr> = Some ws"
      "distinct ws"
      "[60, 1, 1, 100, 2, 1, 120, 3, 1] = fold (\<lambda>j a. a[j := 1]) ws ([60, 1, 1, 100, 2, 0, 120, 3, 0] :: int list)"
    by blast
  have "ws = [8, 5]"
    using ws(1) h4 by simp
  then have g5: "distinct [8, 5 :: nat]"
    and g6: "[60, 1, 1, 100, 2, 1, 120, 3, 1] = fold (\<lambda>j a. a[j := 1]) [8, 5] ([60, 1, 1, 100, 2, 0, 120, 3, 0] :: int list)"
    using ws(2,3) by simp_all
  show ?thesis
    using h1 h2 h3 g1 h4 g5 g6 g2 g3 a4 g4
    unfolding T_def S_def by (intro conjI)
qed

section \<open>The limits of the table size\<close>

text \<open>
  A table size that is not an \<open>int\<close>: for \<open>n = c = 65535\<close> the product \<open>(n+1)*(c+1)\<close>
  wraps to 0, nothing is allocated and the first cell the builder reads is outside the
  array.
\<close>

lemma dp_table_size_overflow: "dp_table 65535 65535 (replicate 196605 0) = None"
proof -
  have "calloc (size_of_int (int_wrap (int_wrap (65535 + 1) * int_wrap (65535 + 1)))) = []"
    by (simp add: calloc_def size_of_int_def int_wrap_def)
  moreover have "dp_cell 65535 (replicate 196605 0) 1 0 [] = None"
    by (simp add: dp_cell_def load_def obj_index_def size_add_def size_mul_def size_sub_def
        size_wrap_def size_of_int_def)
  ultimately show ?thesis
    unfolding dp_table_def
    by (subst dp_rows.simps, subst dp_cols.simps) (simp add: size_of_int_def)
qed

section \<open>The program\<close>

text \<open>
  C8. When \<open>main\<close> is called with exactly one positional argument and \<open>fopen\<close> fails
  on it, the program writes the message of \<open>perror\<close> to the standard error, writes
  nothing to the standard output and returns \<open>-1\<close>; the solver contributes nothing to
  the outcome.
\<close>

theorem main_unreadable_input:
  assumes "fopen f = Inl reason"
  shows "main [prog, f] fopen
      = Some \<lparr>status = - 1, out = [], err = perror ''Could not open file.'' reason\<rparr> \<and>
    - 1 \<noteq> (0::int) \<and> perror ''Could not open file.'' reason \<noteq> []"
  using assms by (simp add: main_def perror_def)

theorem main_unreadable_input_witness:
  "(if ''missing.txt'' = ''ks_3'' then Inr [1, 0, 5, 0]
    else (Inl ''No such file or directory'' :: string + int list))
     = Inl ''No such file or directory'' \<and>
   main [''solver'', ''missing.txt'']
     (\<lambda>name. if name = ''ks_3'' then Inr [1, 0, 5, 0] else Inl ''No such file or directory'')
     = Some \<lparr>status = - 1, out = [],
         err = ''Could not open file.: No such file or directory'' @ [CHR 0x0A]\<rparr>"
proof -
  have h: "(if ''missing.txt'' = ''ks_3'' then Inr [1, 0, 5, 0]
    else (Inl ''No such file or directory'' :: string + int list))
     = Inl ''No such file or directory''"
    by simp
  show ?thesis
    using main_unreadable_input [of
        "\<lambda>name. if name = ''ks_3'' then Inr [1, 0, 5, 0] else Inl ''No such file or directory''"
        "''missing.txt''" "''No such file or directory''" "''solver''"] h
    by (simp add: perror_def)
qed

text \<open>
  C10. When the number of command-line arguments is not exactly one positional argument
  (\<open>argc \<noteq> 2\<close>), \<open>main\<close> opens nothing, solves nothing, writes nothing to either stream
  and returns 0, whatever the file system holds.
\<close>

theorem main_wrong_argument_count:
  assumes "length argv \<noteq> 2"
  shows "main argv fopen = Some \<lparr>status = 0, out = [], err = []\<rparr>"
  using assms by (simp add: main_def)

theorem main_wrong_argument_count_witness:
  "length [''solver''] \<noteq> 2 \<and>
   main [''solver''] (\<lambda>_. Inr [1, 0, 5, 0]) = Some \<lparr>status = 0, out = [], err = []\<rparr> \<and>
   length [''solver'', ''a.txt'', ''b.txt''] \<noteq> 2 \<and>
   main [''solver'', ''a.txt'', ''b.txt''] (\<lambda>_. Inr [1, 0, 5, 0])
     = Some \<lparr>status = 0, out = [], err = []\<rparr>"
proof -
  have h1: "length [''solver''] \<noteq> 2" and h3: "length [''solver'', ''a.txt'', ''b.txt''] \<noteq> 2"
    by simp_all
  show ?thesis
    using main_wrong_argument_count [OF h1, of "\<lambda>_. Inr [1, 0, 5, 0]"]
      main_wrong_argument_count [OF h3, of "\<lambda>_. Inr [1, 0, 5, 0]"] h1 h3
    by (intro conjI)
qed

text \<open>
  A run of the whole program on a readable input: three items \<open>(60, 1)\<close>, \<open>(100, 2)\<close>,
  \<open>(120, 3)\<close> and capacity 5.
\<close>

lemma dp_knapsack_example:
  "dp_knapsack 3 5 [60, 1, 0, 100, 2, 0, 120, 3, 0]
     = Some (''220 1'' @ [CHR 0x0A] @ ''0 1 1 '' @ [CHR 0x0A])"
proof -
  define T :: "int list" where "T =
    [0, 0, 0, 0, 0, 0, 0, 60, 60, 60, 60, 60, 0, 60, 100, 160, 160, 160, 0, 60, 100, 160, 180, 220]"
  have t: "dp_table 3 5 [60, 1, 0, 100, 2, 0, 120, 3, 0] = Some T"
    unfolding T_def by (simp add: dp_eval)
  have b: "dp_backtrace 3 5 [60, 1, 0, 100, 2, 0, 120, 3, 0] T
    = Some \<lparr>bt_k = 0, bt_objs = [60, 1, 0, 100, 2, 1, 120, 3, 1], bt_vals = T\<rparr>"
    unfolding T_def by (simp add: bt_eval)
  have l: "load_int T (int_wrap (int_wrap (3 * int_wrap (5 + 1)) + 5)) = Some 220"
    unfolding T_def by (simp add: c_eval)
  have p: "dp_print 3 220 1 [60, 1, 0, 100, 2, 1, 120, 3, 1]
    = Some (''220 1'' @ [CHR 0x0A] @ ''0 1 1 '' @ [CHR 0x0A])"
    by (simp add: dp_print_def print_flags.simps show_int_def digits.simps c_eval)
  show ?thesis
    unfolding dp_knapsack_def
    by (simp only: t b l p Option.bind.bind_lunit bt_state.select_convs)
qed

lemma main_example:
  "main [''solver'', ''ks_3''] (\<lambda>name. Inr [3, 5, 60, 1, 100, 2, 120, 3])
    = Some \<lparr>status = 0, out = ''220 1'' @ [CHR 0x0A] @ ''0 1 1 '' @ [CHR 0x0A], err = []\<rparr>"
proof -
  have r: "read_objs 3 0 [60, 1, 100, 2, 120, 3] [0, 0, 0, 0, 0, 0, 0, 0, 0]
     = Some [60, 1, 0, 100, 2, 0, 120, 3, 0]"
    by (simp add: read_objs.simps c_eval)
  show ?thesis
    by (simp add: main_def c_eval r dp_knapsack_example)
qed

end
